theory Spec2Isabelle
  imports Complex_Main "HOL-Library.Multiset"
begin

section \<open>Data model\<close>

text \<open>
  The seven piece kinds, the string literals \<^verbatim>\<open>"I" | "O" | "T" | "S" | "Z" | "J" | "L"\<close> of
  the type \<^verbatim>\<open>TetrominoType\<close>. The constructors carry a prefix because single capital
  letters are reserved notation.
\<close>

datatype TetrominoType = TI | TO | TT | TS | TZ | TJ | TL

text \<open>
  A board cell is \<^verbatim>\<open>null\<close> or a piece kind. \<open>Undefined\<close> is the value JavaScript produces
  for a read past the end of a row and for the holes an out-of-range write leaves behind;
  it never occurs in a well-formed board.
\<close>

datatype Cell = Null | Kind TetrominoType | Undefined

type_synonym Board = "Cell list list"

text \<open>
  \<^verbatim>\<open>Tetromino = {type, shape, position: {x, y}, rotation}\<close>. The position object is
  flattened into the two fields \<open>pos_x\<close> and \<open>pos_y\<close>.
\<close>

record Tetromino =
  kind :: TetrominoType
  shape :: "int list list"
  pos_x :: int
  pos_y :: int
  rotation :: nat

datatype error = TypeError

text \<open>
  Modelled from the spec: the constants \<^verbatim>\<open>BOARD_WIDTH\<close> and \<^verbatim>\<open>BOARD_HEIGHT\<close> are imported
  from \<^verbatim>\<open>@/lib/constants\<close>, which is not among the sources; the spec's scenarios use a board of
  20 rows by 10 columns.
\<close>

definition BOARD_WIDTH :: nat where
  "BOARD_WIDTH = 10"

definition BOARD_HEIGHT :: nat where
  "BOARD_HEIGHT = 20"

definition wf_board :: "Board \<Rightarrow> bool" where
  "wf_board board =
     (length board = BOARD_HEIGHT \<and>
      list_all (\<lambda>row. length row = BOARD_WIDTH \<and> list_all (\<lambda>c. c \<noteq> Undefined) row) board)"

section \<open>Piece geometry\<close>

text \<open>
  \<^verbatim>\<open>matrix[i][j]\<close>. A read past the end of a row yields \<^verbatim>\<open>undefined\<close>, which is falsy like
  0 and is modelled as 0; on an N x N matrix no such read happens.
\<close>

definition matrixAt :: "int list list \<Rightarrow> nat \<Rightarrow> nat \<Rightarrow> int" where
  "matrixAt matrix i j =
     (if i < length matrix \<and> j < length (matrix ! i) then matrix ! i ! j else 0)"

text \<open>The assignment \<^verbatim>\<open>rotated[r][c] = v\<close>.\<close>

definition setAt :: "int list list \<Rightarrow> nat \<Rightarrow> nat \<Rightarrow> int \<Rightarrow> int list list" where
  "setAt rotated r c v = rotated[r := (rotated ! r)[c := v]]"

text \<open>
  \<^verbatim>\<open>rotateMatrix\<close>: an N x N matrix of zeros is allocated (N the number of rows) and filled
  by the two nested loops over \<open>i\<close> and \<open>j\<close>.
\<close>

definition rotateMatrix :: "int list list \<Rightarrow> int list list" where
  "rotateMatrix matrix =
     (let N = length matrix;
          rotated = replicate N (replicate N 0)
      in fold (\<lambda>i rot.
                 fold (\<lambda>j rot'. setAt rot' j (N - 1 - i) (matrixAt matrix i j)) [0..<N] rot)
              [0..<N] rotated)"

text \<open>\<^verbatim>\<open>getRotatedShape\<close>: the base shape rotated clockwise \<open>rotation\<close> times.\<close>

definition getRotatedShape :: "Tetromino \<Rightarrow> int list list" where
  "getRotatedShape piece = (rotateMatrix ^^ rotation piece) (shape piece)"

definition square :: "int list list \<Rightarrow> bool" where
  "square matrix = list_all (\<lambda>row. length row = length matrix) matrix"

definition dims :: "nat \<Rightarrow> int list list \<Rightarrow> bool" where
  "dims N rot = (length rot = N \<and> (\<forall>r<N. length (rot ! r) = N))"

section \<open>Collision and placement engine\<close>

text \<open>
  Truthiness of a board cell: a kind is a non-empty string, \<^verbatim>\<open>null\<close> and \<^verbatim>\<open>undefined\<close> are
  falsy.
\<close>

definition truthy :: "Cell \<Rightarrow> bool" where
  "truthy c = (case c of Kind t \<Rightarrow> True | Null \<Rightarrow> False | Undefined \<Rightarrow> False)"

text \<open>
  \<^verbatim>\<open>board[boardY][boardX]\<close> for indices that are not negative. A row index past the last
  row makes \<^verbatim>\<open>board[boardY]\<close> undefined, and indexing that throws a TypeError; a column
  index past the end of an existing row reads \<^verbatim>\<open>undefined\<close>.
\<close>

definition readBoard :: "Board \<Rightarrow> nat \<Rightarrow> nat \<Rightarrow> error + Cell" where
  "readBoard board r c =
     (if r < length board
      then Inr (if c < length (board ! r) then board ! r ! c else Undefined)
      else Inl TypeError)"

text \<open>
  \<^verbatim>\<open>isValidMove\<close>, inner loop: the cells of one shape row, left to right. \<open>boardX\<close> is
  \<^verbatim>\<open>piece.position.x + x\<close> for the loop index \<open>x\<close> of the first cell of the list. The
  disjunction short-circuits, so the board is read only when the three bound tests fail
  and \<open>boardY\<close> is not negative.
\<close>

fun rowValid :: "Board \<Rightarrow> int \<Rightarrow> int \<Rightarrow> int list \<Rightarrow> error + bool" where
  "rowValid board boardY boardX [] = Inr True"
| "rowValid board boardY boardX (c # cs) =
     (if c \<noteq> 0 then
        (if boardX < 0 \<or> boardX \<ge> int BOARD_WIDTH \<or> boardY \<ge> int BOARD_HEIGHT
         then Inr False
         else if boardY \<ge> 0 then
           (case readBoard board (nat boardY) (nat boardX) of
              Inl e \<Rightarrow> Inl e
            | Inr cell \<Rightarrow>
                if truthy cell then Inr False else rowValid board boardY (boardX + 1) cs)
         else rowValid board boardY (boardX + 1) cs)
      else rowValid board boardY (boardX + 1) cs)"

text \<open>Outer loop: the rows of the shape, top to bottom; the first failing cell returns.\<close>

fun rowsValid :: "Board \<Rightarrow> int \<Rightarrow> int \<Rightarrow> int list list \<Rightarrow> error + bool" where
  "rowsValid board posX boardY [] = Inr True"
| "rowsValid board posX boardY (row # rows) =
     (case rowValid board boardY posX row of
        Inl e \<Rightarrow> Inl e
      | Inr ok \<Rightarrow> if ok then rowsValid board posX (boardY + 1) rows else Inr False)"

definition isValidMove :: "Tetromino \<Rightarrow> Board \<Rightarrow> error + bool" where
  "isValidMove piece board =
     rowsValid board (pos_x piece) (pos_y piece) (getRotatedShape piece)"

text \<open>
  The occupied cells of the current (rotated) shape, as (row, column) offsets from the
  anchor, and the placement condition in the words of the specification.
\<close>

definition occupiedCells :: "Tetromino \<Rightarrow> (nat \<times> nat) list" where
  "occupiedCells piece =
     (let sh = getRotatedShape piece
      in concat (map (\<lambda>r. map (\<lambda>c. (r, c)) (filter (\<lambda>c. sh ! r ! c \<noteq> 0) [0..<length (sh ! r)]))
                     [0..<length sh]))"

definition validPlacement :: "Tetromino \<Rightarrow> Board \<Rightarrow> bool" where
  "validPlacement piece board =
     list_all (\<lambda>(r, c).
        0 \<le> pos_x piece + int c \<and> pos_x piece + int c < int BOARD_WIDTH \<and>
        pos_y piece + int r < int BOARD_HEIGHT \<and>
        (0 \<le> pos_y piece + int r \<longrightarrow>
           board ! nat (pos_y piece + int r) ! nat (pos_x piece + int c) = Null))
       (occupiedCells piece)"

definition cellOk :: "Board \<Rightarrow> int \<Rightarrow> int \<Rightarrow> bool" where
  "cellOk board boardY boardX =
     (0 \<le> boardX \<and> boardX < int BOARD_WIDTH \<and> boardY < int BOARD_HEIGHT \<and>
      (0 \<le> boardY \<longrightarrow> board ! nat boardY ! nat boardX = Null))"

definition hasOccupied :: "Tetromino \<Rightarrow> bool" where
  "hasOccupied piece = list_ex (list_ex (\<lambda>c. c \<noteq> 0)) (getRotatedShape piece)"

text \<open>
  The descent loop
  \<^verbatim>\<open>while (isValidMove({...p, position: {...p.position, y: p.position.y + 1}}, board)) p.position.y++\<close>
  as it stands in \<^verbatim>\<open>getGhostPiecePosition\<close>, in \<^verbatim>\<open>simulatePlacement\<close> and in
  \<^verbatim>\<open>findBestPlacement\<close>. The result is \<open>None\<close> when the loop runs forever, \<open>Some (Inl e)\<close>
  when the test throws, and \<open>Some (Inr p)\<close> with the piece at its final row otherwise.
\<close>

partial_function (option) descend :: "Tetromino \<Rightarrow> Board \<Rightarrow> (error + Tetromino) option" where
  "descend piece board =
     (case isValidMove (piece\<lparr>pos_y := pos_y piece + 1\<rparr>) board of
        Inl e \<Rightarrow> Some (Inl e)
      | Inr ok \<Rightarrow>
          if ok then descend (piece\<lparr>pos_y := pos_y piece + 1\<rparr>) board
          else Some (Inr piece))"

declare descend.simps [code]

text \<open>
  \<^verbatim>\<open>getGhostPiecePosition\<close>: \<open>ghost\<close> starts as a copy of the piece with a position object
  of its own and runs through the descent loop.
\<close>

definition getGhostPiecePosition :: "Tetromino \<Rightarrow> Board \<Rightarrow> (error + Tetromino) option" where
  "getGhostPiecePosition piece board = descend piece board"

text \<open>
  The loop of \<^verbatim>\<open>hardDrop\<close> (the \<^verbatim>\<open>while\<close> statement of the callback): the piece stays as
  it is, the loop state is \<open>newY\<close> and \<open>dropDistance\<close>, both returned.
\<close>

partial_function (option) hardDropLoop ::
    "Tetromino \<Rightarrow> Board \<Rightarrow> int \<Rightarrow> int \<Rightarrow> (error + int \<times> int) option" where
  "hardDropLoop currentPiece board newY dropDistance =
     (case isValidMove (currentPiece\<lparr>pos_y := newY + 1\<rparr>) board of
        Inl e \<Rightarrow> Some (Inl e)
      | Inr ok \<Rightarrow>
          if ok then hardDropLoop currentPiece board (newY + 1) (dropDistance + 1)
          else Some (Inr (newY, dropDistance)))"

declare hardDropLoop.simps [code]

section \<open>Board model\<close>

text \<open>\<^verbatim>\<open>createEmptyBoard\<close>.\<close>

definition createEmptyBoard :: Board where
  "createEmptyBoard = replicate BOARD_HEIGHT (replicate BOARD_WIDTH Null)"

text \<open>\<^verbatim>\<open>row.every((cell) => cell !== null)\<close>.\<close>

definition isRowFull :: "Cell list \<Rightarrow> bool" where
  "isRowFull row = list_all (\<lambda>cell. cell \<noteq> Null) row"

text \<open>
  \<^verbatim>\<open>clearLines\<close>: \<^verbatim>\<open>reduce\<close> walks the rows top to bottom with the accumulator \<open>acc\<close> and the
  counter \<open>linesCleared\<close>; a full row puts a new empty row in front (\<^verbatim>\<open>unshift\<close>), any
  other row is copied to the end (\<^verbatim>\<open>push\<close>).
\<close>

definition clearLines :: "Board \<Rightarrow> Board \<times> nat" where
  "clearLines board =
     fold (\<lambda>row (acc, linesCleared).
             if isRowFull row then (replicate BOARD_WIDTH Null # acc, linesCleared + 1)
             else (acc @ [row], linesCleared))
          board ([], 0)"

text \<open>
  The assignment \<^verbatim>\<open>row[boardX] = v\<close> on a row array. Inside the row it replaces the cell. At
  or past the end JavaScript lengthens the array up to the index, the skipped cells being
  holes (read as \<^verbatim>\<open>undefined\<close>). A negative index stores a property that is not an array
  element: the cells and the length stay as they are.
\<close>

definition writeCell :: "Cell list \<Rightarrow> int \<Rightarrow> Cell \<Rightarrow> Cell list" where
  "writeCell row boardX v =
     (if boardX < 0 then row
      else if nat boardX < length row then row[nat boardX := v]
      else row @ replicate (nat boardX - length row) Undefined @ [v])"

text \<open>
  \<^verbatim>\<open>addPieceToBoard\<close>, inner loop over the cells of one shape row. The only test before
  the write is \<^verbatim>\<open>boardY >= 0 && boardY < BOARD_HEIGHT\<close>; writing into a row the board does
  not have throws a TypeError.
\<close>

fun addRow :: "Board \<Rightarrow> TetrominoType \<Rightarrow> int \<Rightarrow> int \<Rightarrow> int list \<Rightarrow> error + Board" where
  "addRow newBoard t boardY boardX [] = Inr newBoard"
| "addRow newBoard t boardY boardX (c # cs) =
     (if c \<noteq> 0 \<and> boardY \<ge> 0 \<and> boardY < int BOARD_HEIGHT then
        (if nat boardY < length newBoard
         then addRow (newBoard[nat boardY := writeCell (newBoard ! nat boardY) boardX (Kind t)])
                t boardY (boardX + 1) cs
         else Inl TypeError)
      else addRow newBoard t boardY (boardX + 1) cs)"

fun addRows :: "Board \<Rightarrow> TetrominoType \<Rightarrow> int \<Rightarrow> int \<Rightarrow> int list list \<Rightarrow> error + Board" where
  "addRows newBoard t posX boardY [] = Inr newBoard"
| "addRows newBoard t posX boardY (row # rows) =
     (case addRow newBoard t boardY posX row of
        Inl e \<Rightarrow> Inl e
      | Inr newBoard' \<Rightarrow> addRows newBoard' t posX (boardY + 1) rows)"

text \<open>
  \<^verbatim>\<open>addPieceToBoard\<close>: \<open>newBoard\<close> starts as a row-by-row copy of the board; the result is
  a value of its own, the argument is not written.
\<close>

definition addPieceToBoard :: "Board \<Rightarrow> Tetromino \<Rightarrow> error + Board" where
  "addPieceToBoard board piece =
     addRows board (kind piece) (pos_x piece) (pos_y piece) (getRotatedShape piece)"

text \<open>The board position (row \<open>r\<close>, column \<open>c\<close>) is under an occupied cell of the piece.\<close>

definition rowCovers :: "int list \<Rightarrow> int \<Rightarrow> int \<Rightarrow> bool" where
  "rowCovers cells boardX c = (\<exists>i<length cells. cells ! i \<noteq> 0 \<and> boardX + int i = c)"

definition rowsCover :: "int list list \<Rightarrow> int \<Rightarrow> int \<Rightarrow> int \<Rightarrow> int \<Rightarrow> bool" where
  "rowsCover rows posX boardY r c =
     (\<exists>j<length rows. boardY + int j = r \<and> rowCovers (rows ! j) posX c)"

definition covers :: "Tetromino \<Rightarrow> nat \<Rightarrow> nat \<Rightarrow> bool" where
  "covers piece r c =
     list_ex (\<lambda>(j, i). pos_y piece + int j = int r \<and> pos_x piece + int i = int c)
       (occupiedCells piece)"

text \<open>
  No occupied cell that falls in a board row lies past the right edge of the board. Cells to
  the left of the board are not restricted.
\<close>

definition insideRightEdge :: "Tetromino \<Rightarrow> bool" where
  "insideRightEdge piece =
     list_all (\<lambda>(j, i).
        0 \<le> pos_y piece + int j \<and> pos_y piece + int j < int BOARD_HEIGHT \<longrightarrow>
        pos_x piece + int i < int BOARD_WIDTH)
       (occupiedCells piece)"

text \<open>
  The dimensions when rows may have grown: \<open>BOARD_HEIGHT\<close> rows of at least \<open>BOARD_WIDTH\<close>
  cells.
\<close>

definition wide :: "Board \<Rightarrow> bool" where
  "wide nb = (length nb = BOARD_HEIGHT \<and> (\<forall>r<BOARD_HEIGHT. BOARD_WIDTH \<le> length (nb ! r)))"

section \<open>The merge and the ghost projection on a heap\<close>

text \<open>
  Whether a function writes to its arguments depends on which arrays and objects are shared,
  so \<^verbatim>\<open>addPieceToBoard\<close> and \<^verbatim>\<open>getGhostPiecePosition\<close> are modelled a second time with the
  arrays and objects they write to in a store.

  For \<^verbatim>\<open>addPieceToBoard\<close> the store holds the row arrays: the address \<open>a\<close> holds the row
  \<open>store ! a\<close>, a new array gets the next free address, and a board is the list of the
  addresses of its rows.
\<close>

type_synonym RowStore = "Cell list list"

type_synonym BoardRef = "nat list"

definition derefBoard :: "RowStore \<Rightarrow> BoardRef \<Rightarrow> Board" where
  "derefBoard store b = map (\<lambda>a. store ! a) b"

text \<open>\<^verbatim>\<open>board.map((row) => [...row])\<close>: a new outer array, and for each row a new copy.\<close>

definition copyRows :: "RowStore \<Rightarrow> BoardRef \<Rightarrow> BoardRef \<times> RowStore" where
  "copyRows store b =
     fold (\<lambda>a (newBoard, st). (newBoard @ [length st], st @ [st ! a])) b ([], store)"

text \<open>\<^verbatim>\<open>newBoard[boardY][boardX] = piece.type\<close> writes to the row array at \<open>newBoard ! boardY\<close>.\<close>

fun addRow_heap :: "RowStore \<Rightarrow> BoardRef \<Rightarrow> TetrominoType \<Rightarrow> int \<Rightarrow> int \<Rightarrow> int list \<Rightarrow> error + RowStore" where
  "addRow_heap st newBoard t boardY boardX [] = Inr st"
| "addRow_heap st newBoard t boardY boardX (c # cs) =
     (if c \<noteq> 0 \<and> boardY \<ge> 0 \<and> boardY < int BOARD_HEIGHT then
        (if nat boardY < length newBoard
         then addRow_heap
                (st[newBoard ! nat boardY := writeCell (st ! (newBoard ! nat boardY)) boardX (Kind t)])
                newBoard t boardY (boardX + 1) cs
         else Inl TypeError)
      else addRow_heap st newBoard t boardY (boardX + 1) cs)"

fun addRows_heap :: "RowStore \<Rightarrow> BoardRef \<Rightarrow> TetrominoType \<Rightarrow> int \<Rightarrow> int \<Rightarrow> int list list \<Rightarrow> error + RowStore" where
  "addRows_heap st newBoard t posX boardY [] = Inr st"
| "addRows_heap st newBoard t posX boardY (row # rows) =
     (case addRow_heap st newBoard t boardY posX row of
        Inl e \<Rightarrow> Inl e
      | Inr st' \<Rightarrow> addRows_heap st' newBoard t posX (boardY + 1) rows)"

definition addPieceToBoard_heap :: "RowStore \<Rightarrow> BoardRef \<Rightarrow> Tetromino \<Rightarrow> error + BoardRef \<times> RowStore" where
  "addPieceToBoard_heap store board piece =
     (let (newBoard, st) = copyRows store board
      in map_sum id (\<lambda>st'. (newBoard, st'))
           (addRows_heap st newBoard (kind piece) (pos_x piece) (pos_y piece)
              (getRotatedShape piece)))"

text \<open>The row loop on the heap against the row loop on values.\<close>

definition heapInv :: "nat \<Rightarrow> RowStore \<Rightarrow> BoardRef \<Rightarrow> bool" where
  "heapInv L st nb = (distinct nb \<and> (\<forall>a\<in>set nb. L \<le> a \<and> a < length st))"

section \<open>Running code that can throw or loop\<close>

text \<open>
  A computation that can run forever or throw has a result of type \<open>(error + 'a) option\<close>:
  \<open>None\<close> when it does not return, \<open>Some (Inl e)\<close> when it throws \<open>e\<close>, \<open>Some (Inr v)\<close>
  when it returns \<open>v\<close>. \<open>bindR\<close> runs a second computation on the value of a first one,
  \<open>liftE\<close> embeds a computation that always returns or throws, \<open>foldR\<close> is a \<^verbatim>\<open>for\<close> loop
  over a list with a loop state.
\<close>

definition bindR :: "(error + 'a) option \<Rightarrow> ('a \<Rightarrow> (error + 'b) option) \<Rightarrow> (error + 'b) option" where
  "bindR m f = (case m of None \<Rightarrow> None | Some (Inl e) \<Rightarrow> Some (Inl e) | Some (Inr v) \<Rightarrow> f v)"

definition liftE :: "error + 'a \<Rightarrow> (error + 'a) option" where
  "liftE r = Some r"

definition returnR :: "'a \<Rightarrow> (error + 'a) option" where
  "returnR v = Some (Inr v)"

fun foldR :: "('a \<Rightarrow> 's \<Rightarrow> (error + 's) option) \<Rightarrow> 'a list \<Rightarrow> 's \<Rightarrow> (error + 's) option" where
  "foldR f [] s = returnR s"
| "foldR f (v # vs) s = bindR (f v s) (foldR f vs)"

text \<open>The same loop for a body that cannot run forever.\<close>

fun foldE :: "('a \<Rightarrow> 's \<Rightarrow> error + 's) \<Rightarrow> 'a list \<Rightarrow> 's \<Rightarrow> error + 's" where
  "foldE f [] s = Inr s"
| "foldE f (v # vs) s = (case f v s of Inl e \<Rightarrow> Inl e | Inr s' \<Rightarrow> foldE f vs s')"

text \<open>
  For \<^verbatim>\<open>getGhostPiecePosition\<close> the store holds the position objects \<^verbatim>\<open>{x, y}\<close>; a piece
  object refers to its position by address. The shape array is shared by the piece and the
  ghost (the spread copies the reference) and is only read; the board is only read.
\<close>

type_synonym PosStore = "(int \<times> int) list"

record TetrominoObj =
  o_kind :: TetrominoType
  o_shape :: "int list list"
  o_position :: nat
  o_rotation :: nat

definition derefPiece :: "PosStore \<Rightarrow> TetrominoObj \<Rightarrow> Tetromino" where
  "derefPiece st p =
     \<lparr>kind = o_kind p, shape = o_shape p, pos_x = fst (st ! o_position p),
      pos_y = snd (st ! o_position p), rotation = o_rotation p\<rparr>"

text \<open>
  The loop: the argument of \<^verbatim>\<open>isValidMove\<close> is a new object with a new position, and
  \<^verbatim>\<open>ghost.position.y++\<close> writes to the position object of the ghost.
\<close>

partial_function (option) ghostLoop_heap ::
    "TetrominoObj \<Rightarrow> Board \<Rightarrow> PosStore \<Rightarrow> (error + PosStore) option" where
  "ghostLoop_heap ghost board st =
     (case isValidMove ((derefPiece st ghost)\<lparr>pos_y := pos_y (derefPiece st ghost) + 1\<rparr>) board of
        Inl e \<Rightarrow> Some (Inl e)
      | Inr ok \<Rightarrow>
          if ok
          then ghostLoop_heap ghost board
                 (st[o_position ghost :=
                       (fst (st ! o_position ghost), snd (st ! o_position ghost) + 1)])
          else Some (Inr st))"

declare ghostLoop_heap.simps [code]

text \<open>
  \<^verbatim>\<open>const ghost = {...piece, position: {...piece.position}}\<close>: a new position object, a copy
  of the piece's, at the next free address.
\<close>

definition getGhostPiecePosition_heap ::
    "TetrominoObj \<Rightarrow> Board \<Rightarrow> PosStore \<Rightarrow> (error + TetrominoObj \<times> PosStore) option" where
  "getGhostPiecePosition_heap piece board st =
     (let ghost = piece\<lparr>o_position := length st\<rparr>;
          st1 = st @ [st ! o_position piece]
      in bindR (ghostLoop_heap ghost board st1) (\<lambda>st'. returnR (ghost, st')))"

section \<open>Spawning and simulated placement\<close>

text \<open>
  \<^verbatim>\<open>generateNewPiece(type)\<close> with the table \<^verbatim>\<open>TETROMINO_SHAPES\<close> as the parameter \<open>shapes\<close>.
  Every call in the sources passes the type, so the random default of the optional
  argument is not part of the model. \<^verbatim>\<open>shape[0].length\<close> throws when the shape has no row.
\<close>

definition generateNewPiece :: "(TetrominoType \<Rightarrow> int list list) \<Rightarrow> TetrominoType \<Rightarrow> error + Tetromino" where
  "generateNewPiece shapes t =
     (case shapes t of
        [] \<Rightarrow> Inl TypeError
      | row0 # rest \<Rightarrow>
          Inr \<lparr>kind = t, shape = shapes t,
               pos_x = (int BOARD_WIDTH - int (length row0)) div 2, pos_y = 0, rotation = 0\<rparr>)"

text \<open>\<^verbatim>\<open>simulatePlacement(pieceType, board, x, rotation)\<close>; \<^verbatim>\<open>null\<close> is \<open>None\<close>.\<close>

definition simulatePlacement ::
    "(TetrominoType \<Rightarrow> int list list) \<Rightarrow> TetrominoType \<Rightarrow> Board \<Rightarrow> int \<Rightarrow> nat \<Rightarrow>
     (error + Board option) option" where
  "simulatePlacement shapes pieceType board px rot =
     bindR (liftE (generateNewPiece shapes pieceType)) (\<lambda>piece0.
     bindR (descend (piece0\<lparr>rotation := rot, pos_x := px, pos_y := 0\<rparr>) board) (\<lambda>piece.
     bindR (liftE (isValidMove piece board)) (\<lambda>ok.
       if \<not> ok then returnR None
       else bindR (liftE (addPieceToBoard board piece)) (\<lambda>newBoard.
            returnR (Some (fst (clearLines newBoard)))))))"

section \<open>Board metrics and the placement search\<close>

text \<open>
  \<^verbatim>\<open>board[y][x] !== null\<close>: true for a kind and for \<^verbatim>\<open>undefined\<close>; throws when the board has
  no row \<open>y\<close>.
\<close>

definition notNullAt :: "Board \<Rightarrow> nat \<Rightarrow> nat \<Rightarrow> error + bool" where
  "notNullAt board r c = map_sum id (\<lambda>cell. cell \<noteq> Null) (readBoard board r c)"

text \<open>\<^verbatim>\<open>countHoles\<close>: per column, top to bottom, with the flag \<open>foundBlock\<close>.\<close>

definition countHoles :: "Board \<Rightarrow> error + nat" where
  "countHoles board =
     foldE (\<lambda>c holes.
        map_sum id snd
          (foldE (\<lambda>r (foundBlock, holes').
              map_sum id
                (\<lambda>filled. if filled then (True, holes')
                           else if foundBlock then (foundBlock, holes' + 1)
                           else (foundBlock, holes'))
                (notNullAt board r c))
            [0..<BOARD_HEIGHT] (False, holes)))
       [0..<BOARD_WIDTH] 0"

text \<open>A loop that stops with \<^verbatim>\<open>break\<close> at the first index passing a test.\<close>

fun findFirst :: "(nat \<Rightarrow> error + bool) \<Rightarrow> nat list \<Rightarrow> error + nat option" where
  "findFirst p [] = Inr None"
| "findFirst p (v # vs) =
     (case p v of Inl e \<Rightarrow> Inl e | Inr hit \<Rightarrow> if hit then Inr (Some v) else findFirst p vs)"

text \<open>
  \<^verbatim>\<open>board[y].some((cell) => cell !== null)\<close>; throws when the board has no row \<open>y\<close>.
  \<^verbatim>\<open>some\<close> passes over the holes of a sparse row, which \<open>Undefined\<close> does not tell from a stored
  \<^verbatim>\<open>undefined\<close>; the boards measured here come out of \<open>clearLines\<close>, whose rows are spread
  copies or fresh rows and have no holes.
\<close>

definition rowHasBlock :: "Board \<Rightarrow> nat \<Rightarrow> error + bool" where
  "rowHasBlock board r =
     (if r < length board then Inr (list_ex (\<lambda>cell. cell \<noteq> Null) (board ! r)) else Inl TypeError)"

record Metrics =
  holes :: nat
  height :: nat
  bumpiness :: nat

definition heightFrom :: "nat option \<Rightarrow> nat" where
  "heightFrom first = (case first of None \<Rightarrow> 0 | Some r \<Rightarrow> BOARD_HEIGHT - r)"

text \<open>\<^verbatim>\<open>calculateBoardMetrics\<close>.\<close>

definition calculateBoardMetrics :: "Board \<Rightarrow> error + Metrics" where
  "calculateBoardMetrics board =
     (case countHoles board of Inl e \<Rightarrow> Inl e | Inr hs \<Rightarrow>
      case findFirst (rowHasBlock board) [0..<BOARD_HEIGHT] of Inl e \<Rightarrow> Inl e | Inr topRow \<Rightarrow>
      case foldE (\<lambda>c columnHeights.
                    map_sum id (\<lambda>first. columnHeights @ [heightFrom first])
                      (findFirst (\<lambda>r. notNullAt board r c) [0..<BOARD_HEIGHT]))
                 [0..<BOARD_WIDTH] []
      of Inl e \<Rightarrow> Inl e | Inr columnHeights \<Rightarrow>
        Inr \<lparr>holes = hs, height = heightFrom topRow,
             bumpiness = (\<Sum>i\<leftarrow>[0..<length columnHeights - 1].
                            nat \<bar>int (columnHeights ! i) - int (columnHeights ! (i + 1))\<bar>)\<rparr>)"

text \<open>
  The numbers of \<^verbatim>\<open>scoreBoardState\<close> are IEEE 754 binary64 numbers. A binary64 number is a
  real; a literal, a product and a sum are the binary64 number nearest to the exact value,
  a tie going to the even significand. The spacing of the binary64 numbers at \<open>x\<close> is
  \<open>ulp x\<close>: for \<open>2 ^ e \<le> \<bar>x\<bar> < 2 ^ (e + 1)\<close> it is \<open>2 ^ (e - 52)\<close>, and below \<open>2 ^ - 1022\<close> it
  stays at \<open>2 ^ - 1074\<close>. \<open>highBinade x\<close> is the power of two \<open>2 ^ e\<close> for \<open>1 \<le> x\<close>, and
  \<open>lowBinade 1022 x\<close> is the larger of \<open>2 ^ e\<close> and \<open>2 ^ - 1022\<close> for \<open>x < 1\<close>. The results from
  \<open>2 ^ 1024\<close> on (\<^verbatim>\<open>Infinity\<close>) and the sign of zero are not represented: a score stays below
  \<open>2 ^ 12\<close>, and \<^verbatim>\<open>-0\<close> compares and adds like \<^verbatim>\<open>0\<close>.

  The score is the one number that is stored and compared between trials. The thresholds of
  the selector and the index of the shuffle are compared in exact arithmetic.
\<close>

function highBinade :: "real \<Rightarrow> real" where
  "highBinade x = (if 2 \<le> x then 2 * highBinade (x / 2) else 1)"
  by pat_completeness auto

termination
proof (relation "measure (\<lambda>x. nat \<lfloor>x\<rfloor>)", goal_cases)
  case 1
  then show ?case by simp
next
  case (2 x)
  then have "x / 2 \<le> x - 1" by simp
  then have "\<lfloor>x / 2\<rfloor> \<le> \<lfloor>x - 1\<rfloor>" by (rule floor_mono)
  moreover have "1 \<le> \<lfloor>x\<rfloor>" using 2 by linarith
  ultimately show ?case by simp
qed

declare highBinade.simps [simp del]

fun lowBinade :: "nat \<Rightarrow> real \<Rightarrow> real" where
  "lowBinade n x =
     (if n = 0 then 1 else if x < 1 then lowBinade (n - 1) (2 * x) / 2 else 1)"

declare lowBinade.simps [simp del]

definition roundHalfEven :: "real \<Rightarrow> int" where
  "roundHalfEven q =
     (let f = \<lfloor>q\<rfloor>; d = q - of_int f
      in if d < 1 / 2 then f else if 1 / 2 < d then f + 1 else if even f then f else f + 1)"

definition ulp :: "real \<Rightarrow> real" where
  "ulp x = (if 1 \<le> \<bar>x\<bar> then highBinade \<bar>x\<bar> else lowBinade 1022 \<bar>x\<bar>) / 2 ^ 52"

definition double :: "real \<Rightarrow> real" where
  "double x = (if x = 0 then 0 else of_int (roundHalfEven (x / ulp x)) * ulp x)"

text \<open>The operators \<^verbatim>\<open>*\<close> and \<^verbatim>\<open>+\<close> on binary64 numbers.\<close>

definition times64 :: "real \<Rightarrow> real \<Rightarrow> real" where
  "times64 a b = double (a * b)"

definition plus64 :: "real \<Rightarrow> real \<Rightarrow> real" where
  "plus64 a b = double (a + b)"

text \<open>
  \<^verbatim>\<open>scoreBoardState\<close> with its four weights, the literals \<^verbatim>\<open>10\<close>, \<^verbatim>\<open>0.5\<close>, \<^verbatim>\<open>0.3\<close> and \<^verbatim>\<open>-5\<close>.
  \<open>weightedSum\<close> is the expression of \<^verbatim>\<open>const score\<close>: four products, added from left to
  right. The counts are small integers, which are binary64 numbers as they are. The first
  argument of \<^verbatim>\<open>scoreBoardState\<close> is not used by the source either.
\<close>

definition HOLE_WEIGHT :: real where "HOLE_WEIGHT = double 10"
definition HEIGHT_WEIGHT :: real where "HEIGHT_WEIGHT = double (5 / 10)"
definition BUMPINESS_WEIGHT :: real where "BUMPINESS_WEIGHT = double (3 / 10)"
definition LINES_WEIGHT :: real where "LINES_WEIGHT = - double 5"

definition weightedSum :: "Metrics \<Rightarrow> nat \<Rightarrow> real" where
  "weightedSum metrics linesCleared =
     plus64
       (plus64
          (plus64 (times64 (real (holes metrics)) HOLE_WEIGHT)
                  (times64 (real (height metrics)) HEIGHT_WEIGHT))
          (times64 (real (bumpiness metrics)) BUMPINESS_WEIGHT))
       (times64 (real linesCleared) LINES_WEIGHT)"

definition scoreBoardState :: "Board \<Rightarrow> Board \<Rightarrow> nat \<Rightarrow> error + real" where
  "scoreBoardState currentBoard resultBoard linesCleared =
     map_sum id (\<lambda>metrics. weightedSum metrics linesCleared)
       (calculateBoardMetrics resultBoard)"

text \<open>
  The composite score in the words of the specification, in exact arithmetic:
  \<open>holes * W_h + height * W_ht + bumpiness * W_b + linesCleared * W_l\<close> with the weights 10,
  0.5, 0.3 and -5. It is a multiple of 1/10; \<open>exactScore s\<close> is the multiple of 1/10 nearest to a
  stored score \<open>s\<close>.
\<close>

definition compositeScore :: "Metrics \<Rightarrow> nat \<Rightarrow> real" where
  "compositeScore metrics linesCleared =
     real (holes metrics) * 10 + real (height metrics) * (5 / 10) +
     real (bumpiness metrics) * (3 / 10) + real linesCleared * (- 5)"

definition exactScore :: "real \<Rightarrow> real" where
  "exactScore s = of_int (round (10 * s)) / 10"

record Placement =
  p_score :: real
  p_x :: int
  p_rotation :: nat
  p_linesCleared :: nat

text \<open>
  The body of the two loops of \<^verbatim>\<open>findBestPlacement\<close> up to the comparison: the piece is
  created, dropped and tested; \<open>None\<close> is the \<^verbatim>\<open>continue\<close> of an invalid placement, otherwise
  the score and the number of cleared lines of the trial.
\<close>

definition tryPlacement ::
    "(TetrominoType \<Rightarrow> int list list) \<Rightarrow> TetrominoType \<Rightarrow> Board \<Rightarrow> nat \<Rightarrow> int \<Rightarrow>
     (error + (real \<times> nat) option) option" where
  "tryPlacement shapes pieceType board rot x =
     bindR (liftE (generateNewPiece shapes pieceType)) (\<lambda>piece0.
     bindR (descend (piece0\<lparr>rotation := rot, pos_x := x, pos_y := 0\<rparr>) board) (\<lambda>piece.
     bindR (liftE (isValidMove piece board)) (\<lambda>ok.
       if \<not> ok then returnR None
       else bindR (liftE (addPieceToBoard board piece)) (\<lambda>boardWithPiece.
            bindR (liftE (scoreBoardState board (fst (clearLines boardWithPiece))
                            (snd (clearLines boardWithPiece)))) (\<lambda>sc.
            returnR (Some (sc, snd (clearLines boardWithPiece))))))))"

text \<open>
  The same body up to the call of \<^verbatim>\<open>scoreBoardState\<close>: the metrics of \<open>clearedBoard\<close> and
  \<open>linesCleared\<close>, which the score is computed from.
\<close>

definition trialOutcome ::
    "(TetrominoType \<Rightarrow> int list list) \<Rightarrow> TetrominoType \<Rightarrow> Board \<Rightarrow> nat \<Rightarrow> int \<Rightarrow>
     (error + (Metrics \<times> nat) option) option" where
  "trialOutcome shapes pieceType board rot x =
     bindR (liftE (generateNewPiece shapes pieceType)) (\<lambda>piece0.
     bindR (descend (piece0\<lparr>rotation := rot, pos_x := x, pos_y := 0\<rparr>) board) (\<lambda>piece.
     bindR (liftE (isValidMove piece board)) (\<lambda>ok.
       if \<not> ok then returnR None
       else bindR (liftE (addPieceToBoard board piece)) (\<lambda>boardWithPiece.
            bindR (liftE (calculateBoardMetrics (fst (clearLines boardWithPiece)))) (\<lambda>metrics.
            returnR (Some (metrics, snd (clearLines boardWithPiece))))))))"

text \<open>
  \<^verbatim>\<open>findBestPlacement\<close> (the revision with \<^verbatim>\<open>scoreBoardState\<close>): rotations 0 to 3, anchors
  \<open>-3 \<le> x < BOARD_WIDTH + 3\<close>; a trial replaces \<open>bestPlacement\<close> when there is none yet or
  its score is strictly lower.
\<close>

definition betterPlacement :: "Placement option \<Rightarrow> nat \<Rightarrow> int \<Rightarrow> real \<times> nat \<Rightarrow> Placement option" where
  "betterPlacement bestPlacement rot x trial =
     (case bestPlacement of
        None \<Rightarrow> Some \<lparr>p_score = fst trial, p_x = x, p_rotation = rot, p_linesCleared = snd trial\<rparr>
      | Some best \<Rightarrow>
          if fst trial < p_score best
          then Some \<lparr>p_score = fst trial, p_x = x, p_rotation = rot, p_linesCleared = snd trial\<rparr>
          else Some best)"

definition findBestPlacement ::
    "(TetrominoType \<Rightarrow> int list list) \<Rightarrow> TetrominoType \<Rightarrow> Board \<Rightarrow> (error + Placement option) option" where
  "findBestPlacement shapes pieceType board =
     foldR (\<lambda>rot. foldR (\<lambda>x bestPlacement.
              bindR (tryPlacement shapes pieceType board rot x) (\<lambda>trial.
                case trial of
                  None \<Rightarrow> returnR bestPlacement
                | Some t \<Rightarrow> returnR (betterPlacement bestPlacement rot x t)))
            [- 3..int BOARD_WIDTH + 2])
       [0..<4] None"

section \<open>Rotation with wall kicks\<close>

text \<open>
  The two kick tables of \<^verbatim>\<open>getWallKicks\<close>. The key \<^verbatim>\<open>`${currentRotation}${nextRotation}`\<close>
  is kept as the pair of the two numbers; the keys \<^verbatim>\<open>"01"\<close>, \<^verbatim>\<open>"12"\<close>, \<^verbatim>\<open>"23"\<close>, \<^verbatim>\<open>"30"\<close> are
  the pairs (0,1), (1,2), (2,3), (3,0). An offset \<^verbatim>\<open>{x, y}\<close> is the pair (x, y).
\<close>

definition standardKicks :: "((nat \<times> nat) \<times> (int \<times> int) list) list" where
  "standardKicks =
     [((0, 1), [(0, 0), (- 1, 0), (- 1, - 1), (0, 2), (- 1, 2)]),
      ((1, 2), [(0, 0), (1, 0), (1, 1), (0, - 2), (1, - 2)]),
      ((2, 3), [(0, 0), (1, 0), (1, - 1), (0, 2), (1, 2)]),
      ((3, 0), [(0, 0), (- 1, 0), (- 1, 1), (0, - 2), (- 1, - 2)])]"

definition iKicks :: "((nat \<times> nat) \<times> (int \<times> int) list) list" where
  "iKicks =
     [((0, 1), [(0, 0), (- 2, 0), (1, 0), (- 2, 1), (1, - 2)]),
      ((1, 2), [(0, 0), (- 1, 0), (2, 0), (- 1, - 2), (2, 1)]),
      ((2, 3), [(0, 0), (2, 0), (- 1, 0), (2, - 1), (- 1, 2)]),
      ((3, 0), [(0, 0), (1, 0), (- 2, 0), (1, 2), (- 2, - 1)])]"

text \<open>\<^verbatim>\<open>table[kickKey] || table["01"]\<close>.\<close>

definition kicksOrDefault ::
    "((nat \<times> nat) \<times> (int \<times> int) list) list \<Rightarrow> nat \<times> nat \<Rightarrow> (int \<times> int) list" where
  "kicksOrDefault table kickKey =
     (case map_of table kickKey of
        Some ks \<Rightarrow> ks
      | None \<Rightarrow> (case map_of table (0, 1) of Some ks \<Rightarrow> ks | None \<Rightarrow> []))"

definition getWallKicks :: "Tetromino \<Rightarrow> nat \<Rightarrow> (int \<times> int) list" where
  "getWallKicks piece currentRotation =
     (let nextRotation = (currentRotation + 1) mod 4;
          kickKey = (currentRotation, nextRotation)
      in if kind piece = TI then kicksOrDefault iKicks kickKey
         else if kind piece = TO then [(0, 0)]
         else kicksOrDefault standardKicks kickKey)"

text \<open>
  The part of the state of \<^verbatim>\<open>useGameLogic\<close> that \<^verbatim>\<open>rotatePiece\<close> reads and writes: the
  board, the current piece, the ghost piece and the lifecycle phase.
\<close>

datatype GameState = INITIAL | PLAYING | PAUSED | GAME_OVER

record Session =
  s_board :: Board
  s_currentPiece :: "Tetromino option"
  s_ghostPiece :: "Tetromino option"
  s_gameState :: GameState

text \<open>\<^verbatim>\<open>kickedPiece\<close>: the rotated piece moved by one offset.\<close>

definition applyKick :: "Tetromino \<Rightarrow> int \<times> int \<Rightarrow> Tetromino" where
  "applyKick rotatedPiece kick =
     rotatedPiece\<lparr>pos_x := pos_x rotatedPiece + fst kick, pos_y := pos_y rotatedPiece + snd kick\<rparr>"

text \<open>
  The \<^verbatim>\<open>for (const kick of kicks)\<close> loop of \<^verbatim>\<open>rotatePiece\<close>: the first kicked piece that
  \<^verbatim>\<open>isValidMove\<close> accepts, or \<open>None\<close> when the loop runs out.
\<close>

fun tryKicks :: "Tetromino \<Rightarrow> Board \<Rightarrow> (int \<times> int) list \<Rightarrow> error + Tetromino option" where
  "tryKicks rotatedPiece board [] = Inr None"
| "tryKicks rotatedPiece board (kick # kicks) =
     (case isValidMove (applyKick rotatedPiece kick) board of
        Inl e \<Rightarrow> Inl e
      | Inr ok \<Rightarrow>
          if ok then Inr (Some (applyKick rotatedPiece kick))
          else tryKicks rotatedPiece board kicks)"

text \<open>\<^verbatim>\<open>updateGhostPiece\<close>: \<^verbatim>\<open>setGhostPiece(getGhostPiecePosition(piece, board))\<close>.\<close>

definition updateGhostPiece :: "Tetromino \<Rightarrow> Session \<Rightarrow> (error + Session) option" where
  "updateGhostPiece piece s =
     bindR (getGhostPiecePosition piece (s_board s)) (\<lambda>ghost.
       returnR (s\<lparr>s_ghostPiece := Some ghost\<rparr>))"

text \<open>\<^verbatim>\<open>rotatePiece\<close>.\<close>

definition rotatePiece :: "Session \<Rightarrow> (error + Session) option" where
  "rotatePiece s =
     (case s_currentPiece s of
        None \<Rightarrow> returnR s
      | Some cur \<Rightarrow>
          if s_gameState s \<noteq> PLAYING then returnR s
          else
            (let newRotation = (rotation cur + 1) mod 4;
                 rotatedPiece = cur\<lparr>rotation := newRotation\<rparr>;
                 kicks = getWallKicks cur (rotation cur)
             in bindR (liftE (tryKicks rotatedPiece (s_board s) kicks)) (\<lambda>found.
                  case found of
                    None \<Rightarrow> returnR s
                  | Some kickedPiece \<Rightarrow>
                      updateGhostPiece kickedPiece (s\<lparr>s_currentPiece := Some kickedPiece\<rparr>))))"

section \<open>Piece supply: the bag\<close>

definition TETROMINO_TYPES :: "TetrominoType list" where
  "TETROMINO_TYPES = [TI, TO, TT, TS, TZ, TJ, TL]"

text \<open>
  \<^verbatim>\<open>Math.random()\<close> is the function \<open>rnd\<close>: \<open>rnd k\<close> is the number the call number \<open>k\<close>
  returns, a real \<open>0 \<le> r < 1\<close>; code that draws random numbers takes the count \<open>n\<close> of the
  calls made so far and returns the new count.

  The loop of \<^verbatim>\<open>generateBag\<close>, \<^verbatim>\<open>for (let i = bag.length - 1; i > 0; i--)\<close>, with the swap
  \<^verbatim>\<open>[bag[i], bag[j]] = [bag[j], bag[i]]\<close> for \<open>j = floor(random * (i + 1))\<close>.
\<close>

fun shuffleFrom :: "(nat \<Rightarrow> real) \<Rightarrow> nat \<Rightarrow> nat \<Rightarrow> TetrominoType list \<Rightarrow> TetrominoType list \<times> nat" where
  "shuffleFrom rnd n 0 bag = (bag, n)"
| "shuffleFrom rnd n (Suc i) bag =
     (let j = nat \<lfloor>rnd n * real (Suc i + 1)\<rfloor>
      in shuffleFrom rnd (n + 1) i (bag[Suc i := bag ! j, j := bag ! Suc i]))"

definition generateBag :: "(nat \<Rightarrow> real) \<Rightarrow> nat \<Rightarrow> TetrominoType list \<times> nat" where
  "generateBag rnd n = shuffleFrom rnd n (length TETROMINO_TYPES - 1) TETROMINO_TYPES"

text \<open>
  The state of the supply: \<^verbatim>\<open>bagRef.current\<close>, the preview \<^verbatim>\<open>nextPieces\<close>, and the count of
  the calls of \<^verbatim>\<open>Math.random\<close>.
\<close>

record Supply =
  bagRef :: "TetrominoType list"
  nextPieces :: "TetrominoType list"
  randomCalls :: nat

text \<open>\<^verbatim>\<open>bagRef.current.push(...generateBag())\<close>.\<close>

definition pushBag :: "(nat \<Rightarrow> real) \<Rightarrow> Supply \<Rightarrow> Supply" where
  "pushBag rnd s =
     s\<lparr>bagRef := bagRef s @ fst (generateBag rnd (randomCalls s)),
       randomCalls := snd (generateBag rnd (randomCalls s))\<rparr>"

text \<open>
  The bag branch of \<^verbatim>\<open>getNextPiece\<close> (the code after the test of \<^verbatim>\<open>perfectPieceMode\<close>);
  \<open>preview\<close> is the constant \<^verbatim>\<open>PREVIEW_PIECES\<close> of \<^verbatim>\<open>@/lib/constants\<close>, which is not among
  the sources. \<^verbatim>\<open>shift()\<close> on an empty array returns \<^verbatim>\<open>undefined\<close>, here \<open>None\<close>.
\<close>

definition nextFromBag :: "(nat \<Rightarrow> real) \<Rightarrow> nat \<Rightarrow> Supply \<Rightarrow> TetrominoType option \<times> Supply" where
  "nextFromBag rnd preview s =
     (let s1 = (if length (bagRef s) = 0 then pushBag rnd s else s);
          next = (case bagRef s1 of [] \<Rightarrow> None | t # rest \<Rightarrow> Some t);
          s2 = s1\<lparr>bagRef := tl (bagRef s1)\<rparr>;
          s3 = (if length (bagRef s2) < preview + 1 then pushBag rnd s2 else s2)
      in (next, s3\<lparr>nextPieces := take preview (bagRef s3)\<rparr>))"

text \<open>A number of successive draws and the state after them.\<close>

fun draws :: "(nat \<Rightarrow> real) \<Rightarrow> nat \<Rightarrow> nat \<Rightarrow> Supply \<Rightarrow> TetrominoType option list \<times> Supply" where
  "draws rnd preview 0 s = ([], s)"
| "draws rnd preview (Suc k) s =
     (let (d, s1) = nextFromBag rnd preview s;
          (ds, s2) = draws rnd preview k s1
      in (d # ds, s2))"

text \<open>The queue is at a bag boundary: it is a sequence of whole bags.\<close>

inductive wholeBags :: "TetrominoType list \<Rightarrow> bool" where
  wholeBags_Nil: "wholeBags []"
| wholeBags_App: "mset b = mset TETROMINO_TYPES \<Longrightarrow> wholeBags ws \<Longrightarrow> wholeBags (b @ ws)"

section \<open>The heuristic selector\<close>

text \<open>\<^verbatim>\<open>isBoardMostlyEmpty\<close>: the count of the cells that are not \<^verbatim>\<open>null\<close>, against 8 percent.\<close>

definition isBoardMostlyEmpty :: "Board \<Rightarrow> error + bool" where
  "isBoardMostlyEmpty board =
     map_sum id
       (\<lambda>filledCells. real filledCells / real (BOARD_WIDTH * BOARD_HEIGHT) < 8 / 100)
       (foldE (\<lambda>r filledCells.
                 foldE (\<lambda>c filledCells'.
                          map_sum id (\<lambda>filled. if filled then filledCells' + 1 else filledCells')
                            (notNullAt board r c))
                       [0..<BOARD_WIDTH] filledCells)
              [0..<BOARD_HEIGHT] 0)"

text \<open>
  \<^verbatim>\<open>hasNearCompleteLine\<close>: some row has at least \<^verbatim>\<open>BOARD_WIDTH * 0.6\<close> cells that are not
  \<^verbatim>\<open>null\<close>; \<^verbatim>\<open>board[y].filter\<close> throws when the board has no row \<open>y\<close>.
\<close>

definition rowNearlyFull :: "Board \<Rightarrow> nat \<Rightarrow> error + bool" where
  "rowNearlyFull board r =
     (if r < length board
      then Inr (real BOARD_WIDTH * (6 / 10) \<le> real (length (filter (\<lambda>cell. cell \<noteq> Null) (board ! r))))
      else Inl TypeError)"

definition hasNearCompleteLine :: "Board \<Rightarrow> error + bool" where
  "hasNearCompleteLine board =
     map_sum id (\<lambda>hit. hit \<noteq> None) (findFirst (rowNearlyFull board) [0..<BOARD_HEIGHT])"

text \<open>The local array \<^verbatim>\<open>pieceTypes\<close> of \<^verbatim>\<open>selectOptimalPiece\<close>.\<close>

definition pieceTypes :: "TetrominoType list" where
  "pieceTypes = [TI, TO, TT, TS, TZ, TJ, TL]"

text \<open>
  \<^verbatim>\<open>pieceTypes[Math.floor(Math.random() * pieceTypes.length)]\<close>: an index outside the array
  reads \<^verbatim>\<open>undefined\<close>, here \<open>None\<close>. The second component is the new count of random calls.
\<close>

definition randomPiece :: "(nat \<Rightarrow> real) \<Rightarrow> nat \<Rightarrow> TetrominoType option \<times> nat" where
  "randomPiece rnd n =
     (let i = \<lfloor>rnd n * real (length pieceTypes)\<rfloor>
      in (if 0 \<le> i \<and> nat i < length pieceTypes then Some (pieceTypes ! nat i) else None, n + 1))"

text \<open>\<^verbatim>\<open>placement.score < bestScore\<close>, where \<open>None\<close> is the initial \<^verbatim>\<open>Infinity\<close>.\<close>

definition belowBest :: "real \<Rightarrow> real option \<Rightarrow> bool" where
  "belowBest v bestScore = (case bestScore of None \<Rightarrow> True | Some b \<Rightarrow> v < b)"

text \<open>
  The last part of \<^verbatim>\<open>selectOptimalPiece\<close>: the loop over the seven kinds, starting from
  \<^verbatim>\<open>bestPiece = "T"\<close> and \<^verbatim>\<open>bestScore = Infinity\<close>.
\<close>

definition searchBestPiece ::
    "(TetrominoType \<Rightarrow> int list list) \<Rightarrow> Board \<Rightarrow> (error + TetrominoType) option" where
  "searchBestPiece shapes board =
     bindR (foldR (\<lambda>pieceType (bestPiece, bestScore).
                     bindR (findBestPlacement shapes pieceType board) (\<lambda>placement.
                       case placement of
                         None \<Rightarrow> returnR (bestPiece, bestScore)
                       | Some p \<Rightarrow>
                           if belowBest (p_score p) bestScore
                           then returnR (pieceType, Some (p_score p))
                           else returnR (bestPiece, bestScore)))
                  pieceTypes (TT, None))
       (\<lambda>(bestPiece, bestScore). returnR bestPiece)"

text \<open>
  \<^verbatim>\<open>selectOptimalPiece\<close> (the revision with the random gates). \<^verbatim>\<open>&&\<close> short-circuits:
  the gate of 0.6 draws a random number only when no row is nearly full.
\<close>

definition selectOptimalPiece ::
    "(TetrominoType \<Rightarrow> int list list) \<Rightarrow> (nat \<Rightarrow> real) \<Rightarrow> nat \<Rightarrow> Board \<Rightarrow>
     (error + TetrominoType option \<times> nat) option" where
  "selectOptimalPiece shapes rnd n board =
     bindR (liftE (isBoardMostlyEmpty board)) (\<lambda>mostlyEmpty.
       if mostlyEmpty then returnR (randomPiece rnd n)
       else bindR (liftE (hasNearCompleteLine board)) (\<lambda>near.
         if \<not> near \<and> rnd n < 6 / 10 then returnR (randomPiece rnd (n + 1))
         else
           (let n1 = (if \<not> near then n + 1 else n)
            in if rnd n1 < 2 / 10 then returnR (randomPiece rnd (n1 + 1))
               else bindR (searchBestPiece shapes board) (\<lambda>bestPiece.
                      returnR (Some bestPiece, n1 + 1)))))"

text \<open>
  \<^verbatim>\<open>getNextPiece(currentBoard)\<close>: with \<^verbatim>\<open>perfectPieceMode\<close> the selector answers, otherwise
  the bag. The state update \<^verbatim>\<open>setNextPieces\<close> is the field \<open>nextPieces\<close>.
\<close>

definition getNextPiece ::
    "(TetrominoType \<Rightarrow> int list list) \<Rightarrow> (nat \<Rightarrow> real) \<Rightarrow> nat \<Rightarrow> bool \<Rightarrow> Board \<Rightarrow> Supply \<Rightarrow>
     (error + TetrominoType option \<times> Supply) option" where
  "getNextPiece shapes rnd preview perfectPieceMode currentBoard s =
     (if perfectPieceMode
      then bindR (selectOptimalPiece shapes rnd (randomCalls s) currentBoard) (\<lambda>(t, n').
             returnR (t, s\<lparr>randomCalls := n'\<rparr>))
      else returnR (nextFromBag rnd preview s))"

text \<open>
  The other revision of \<^verbatim>\<open>src/lib/utils.ts\<close> among the sources has a search that compares
  hole counts only, with a random tie-break, and a selector without gates that starts from
  \<^verbatim>\<open>bestPiece = "I"\<close>. \<^verbatim>\<open>Math.random() < 0.5\<close> is drawn only when the hole counts are equal.
\<close>

record HolesPlacement =
  hp_holes :: nat
  hp_x :: int
  hp_rotation :: nat

definition findBestPlacement_holes ::
    "(TetrominoType \<Rightarrow> int list list) \<Rightarrow> (nat \<Rightarrow> real) \<Rightarrow> nat \<Rightarrow> TetrominoType \<Rightarrow> Board \<Rightarrow>
     (error + HolesPlacement option \<times> nat) option" where
  "findBestPlacement_holes shapes rnd n pieceType board =
     foldR (\<lambda>rot. foldR (\<lambda>x (bestPlacement, n').
              bindR (simulatePlacement shapes pieceType board x rot) (\<lambda>resultBoard.
                case resultBoard of
                  None \<Rightarrow> returnR (bestPlacement, n')
                | Some rb \<Rightarrow>
                    bindR (liftE (calculateBoardMetrics rb)) (\<lambda>metrics.
                      case bestPlacement of
                        None \<Rightarrow>
                          returnR (Some \<lparr>hp_holes = holes metrics, hp_x = x, hp_rotation = rot\<rparr>, n')
                      | Some best \<Rightarrow>
                          if holes metrics < hp_holes best
                          then returnR (Some \<lparr>hp_holes = holes metrics, hp_x = x, hp_rotation = rot\<rparr>, n')
                          else if holes metrics = hp_holes best
                          then (if rnd n' < 1 / 2
                                then returnR (Some \<lparr>hp_holes = holes metrics, hp_x = x,
                                                     hp_rotation = rot\<rparr>, n' + 1)
                                else returnR (bestPlacement, n' + 1))
                          else returnR (bestPlacement, n'))))
            [- 3..int BOARD_WIDTH + 2])
       [0..<4] (None, n)"

text \<open>
  What this search measures in one trial: \<^verbatim>\<open>calculateBoardMetrics(resultBoard)\<close> for the
  board that \<^verbatim>\<open>simulatePlacement\<close> returns, \<open>None\<close> when it returns \<^verbatim>\<open>null\<close>.
\<close>

definition trialMetrics ::
    "(TetrominoType \<Rightarrow> int list list) \<Rightarrow> TetrominoType \<Rightarrow> Board \<Rightarrow> int \<Rightarrow> nat \<Rightarrow>
     (error + Metrics option) option" where
  "trialMetrics shapes pieceType board x rot =
     bindR (simulatePlacement shapes pieceType board x rot) (\<lambda>resultBoard.
       case resultBoard of
         None \<Rightarrow> returnR None
       | Some rb \<Rightarrow> bindR (liftE (calculateBoardMetrics rb)) (\<lambda>metrics. returnR (Some metrics)))"

text \<open>\<^verbatim>\<open>placement.holes < bestHoles\<close>, where \<open>None\<close> is the initial \<^verbatim>\<open>Infinity\<close>.\<close>

definition belowBestHoles :: "nat \<Rightarrow> nat option \<Rightarrow> bool" where
  "belowBestHoles v bestHoles = (case bestHoles of None \<Rightarrow> True | Some b \<Rightarrow> v < b)"

definition selectOptimalPiece_holes ::
    "(TetrominoType \<Rightarrow> int list list) \<Rightarrow> (nat \<Rightarrow> real) \<Rightarrow> nat \<Rightarrow> Board \<Rightarrow>
     (error + TetrominoType \<times> nat) option" where
  "selectOptimalPiece_holes shapes rnd n board =
     bindR (foldR (\<lambda>pieceType (bestPiece, bestHoles, n').
                     bindR (findBestPlacement_holes shapes rnd n' pieceType board)
                       (\<lambda>(placement, n'').
                          case placement of
                            None \<Rightarrow> returnR (bestPiece, bestHoles, n'')
                          | Some p \<Rightarrow>
                              if belowBestHoles (hp_holes p) bestHoles
                              then returnR (pieceType, Some (hp_holes p), n'')
                              else returnR (bestPiece, bestHoles, n'')))
                  pieceTypes (TI, None, n))
       (\<lambda>(bestPiece, bestHoles, n'). returnR (bestPiece, n'))"

text \<open>
  What the search needs of an entry of the shape table: an N x N matrix with an occupied
  cell.
\<close>

definition shapeOk :: "int list list \<Rightarrow> bool" where
  "shapeOk m = (square m \<and> list_ex (list_ex (\<lambda>c. c \<noteq> 0)) m)"

text \<open>The anchors and rotations that \<open>findBestPlacement\<close> tries.\<close>

definition inSearchRange :: "nat \<Rightarrow> int \<Rightarrow> bool" where
  "inSearchRange rot x = (rot < 4 \<and> - 3 \<le> x \<and> x < int BOARD_WIDTH + 3)"

text \<open>The search as a fold over the trials, and its invariant.\<close>

definition stepBest :: "(nat \<Rightarrow> int \<Rightarrow> (real \<times> nat) option) \<Rightarrow> nat \<times> int \<Rightarrow> Placement option \<Rightarrow> Placement option" where
  "stepBest out p best =
     (case out (fst p) (snd p) of None \<Rightarrow> best | Some t \<Rightarrow> betterPlacement best (fst p) (snd p) t)"

definition bestInv :: "(nat \<Rightarrow> int \<Rightarrow> (real \<times> nat) option) \<Rightarrow> (nat \<times> int) set \<Rightarrow> Placement option \<Rightarrow> bool" where
  "bestInv out seen best =
     ((best = None \<longleftrightarrow> (\<forall>p\<in>seen. out (fst p) (snd p) = None)) \<and>
      (\<forall>b. best = Some b \<longrightarrow>
         (p_rotation b, p_x b) \<in> seen \<and>
         out (p_rotation b) (p_x b) = Some (p_score b, p_linesCleared b) \<and>
         (\<forall>p\<in>seen. \<forall>sc l. out (fst p) (snd p) = Some (sc, l) \<longrightarrow> p_score b \<le> sc)))"

text \<open>The dimensions alone: \<open>BOARD_HEIGHT\<close> rows of \<open>BOARD_WIDTH\<close> cells.\<close>

definition rect :: "Board \<Rightarrow> bool" where
  "rect board = (length board = BOARD_HEIGHT \<and> (\<forall>r<BOARD_HEIGHT. length (board ! r) = BOARD_WIDTH))"

section \<open>Example inputs\<close>

text \<open>
  The table \<^verbatim>\<open>TETROMINO_SHAPES\<close> is imported from \<^verbatim>\<open>@/lib/constants\<close>, which is not among
  the sources, so the functions that read it take it as the parameter \<open>shapes\<close>.
  \<open>exampleShapes\<close> is one such table, the seven tetrominoes in their usual N x N boxes; it is
  used only to instantiate theorems at concrete inputs.
\<close>

fun exampleShapes :: "TetrominoType \<Rightarrow> int list list" where
  "exampleShapes TI = [[0,0,0,0],[1,1,1,1],[0,0,0,0],[0,0,0,0]]"
| "exampleShapes TO = [[1,1],[1,1]]"
| "exampleShapes TT = [[0,1,0],[1,1,1],[0,0,0]]"
| "exampleShapes TS = [[0,1,1],[1,1,0],[0,0,0]]"
| "exampleShapes TZ = [[1,1,0],[0,1,1],[0,0,0]]"
| "exampleShapes TJ = [[1,0,0],[1,1,1],[0,0,0]]"
| "exampleShapes TL = [[0,0,1],[1,1,1],[0,0,0]]"

definition examplePiece :: "TetrominoType \<Rightarrow> int \<Rightarrow> int \<Rightarrow> nat \<Rightarrow> Tetromino" where
  "examplePiece t px py rot =
     \<lparr>kind = t, shape = exampleShapes t, pos_x = px, pos_y = py, rotation = rot\<rparr>"

text \<open>A board with every cell filled.\<close>

definition fullBoard :: Board where
  "fullBoard = replicate BOARD_HEIGHT (replicate BOARD_WIDTH (Kind TI))"

text \<open>A piece record whose shape has no occupied cell.\<close>

definition blankPiece :: Tetromino where
  "blankPiece = \<lparr>kind = TO, shape = [[0, 0], [0, 0]], pos_x = 4, pos_y = 0, rotation = 0\<rparr>"

text \<open>
  Two sessions: a T piece lying on its side against the left wall of the empty board, and a
  T piece in a board that is full except for the four cells the piece is in.
\<close>

definition wallSession :: Session where
  "wallSession =
     \<lparr>s_board = createEmptyBoard, s_currentPiece = Some (examplePiece TT (- 1) 5 1),
      s_ghostPiece = None, s_gameState = PLAYING\<rparr>"

definition tightBoard :: Board where
  "tightBoard =
     map (\<lambda>r. map (\<lambda>c. if (r, c) \<in> set [(5, 4), (6, 3), (6, 4), (6, 5 :: nat)] then Null
                         else Kind TI) [0..<BOARD_WIDTH])
       [0..<BOARD_HEIGHT :: nat]"

definition tightSession :: Session where
  "tightSession =
     \<lparr>s_board = tightBoard, s_currentPiece = Some (examplePiece TT 3 5 0),
      s_ghostPiece = None, s_gameState = PLAYING\<rparr>"

text \<open>A paused game: a T piece in the open on the empty board, with its ghost.\<close>

definition pausedSession :: Session where
  "pausedSession =
     \<lparr>s_board = createEmptyBoard, s_currentPiece = Some (examplePiece TT 3 5 0),
      s_ghostPiece = Some (examplePiece TT 3 18 0), s_gameState = PAUSED\<rparr>"

section \<open>Properties of the piece geometry\<close>

lemma length_setAt [simp]: "length (setAt rot r c v) = length rot"
  by (simp add: setAt_def)

lemma length_setAt_row [simp]: "length (setAt rot r c v ! k) = length (rot ! k)"
  by (cases "k = r"; cases "r < length rot"; simp add: setAt_def list_update_beyond)

lemma setAt_nth:
  "r < length rot \<Longrightarrow> c < length (rot ! r) \<Longrightarrow>
   setAt rot r c v ! r' ! c' = (if r' = r \<and> c' = c then v else rot ! r' ! c')"
  by (cases "r' = r"; cases "c' = c"; simp add: setAt_def)

lemma dims_setAt: "dims N rot \<Longrightarrow> dims N (setAt rot r c v)"
  by (simp add: dims_def)

lemma inner_fold:
  "dims N rot \<Longrightarrow> col < N \<Longrightarrow> k \<le> N \<Longrightarrow>
   dims N (fold (\<lambda>j rot'. setAt rot' j col (f j)) [0..<k] rot) \<and>
   (\<forall>r<N. \<forall>c<N. fold (\<lambda>j rot'. setAt rot' j col (f j)) [0..<k] rot ! r ! c =
      (if c = col \<and> r < k then f r else rot ! r ! c))"
proof (induction k)
  case 0
  then show ?case by simp
next
  case (Suc k)
  let ?g = "fold (\<lambda>j rot'. setAt rot' j col (f j)) [0..<k] rot"
  from Suc have d: "dims N ?g" and
    v: "\<forall>r<N. \<forall>c<N. ?g ! r ! c = (if c = col \<and> r < k then f r else rot ! r ! c)"
    by simp_all
  have k: "k < N" using Suc.prems by simp
  have len: "k < length ?g" "col < length (?g ! k)"
    using d k Suc.prems by (simp_all add: dims_def)
  show ?case
    using d v k by (auto simp: dims_setAt setAt_nth [OF len])
qed

lemma outer_fold:
  "dims N rot \<Longrightarrow> k \<le> N \<Longrightarrow>
   dims N (fold (\<lambda>i rot. fold (\<lambda>j rot'. setAt rot' j (N - 1 - i) (f i j)) [0..<N] rot) [0..<k] rot) \<and>
   (\<forall>r<N. \<forall>c<N.
      fold (\<lambda>i rot. fold (\<lambda>j rot'. setAt rot' j (N - 1 - i) (f i j)) [0..<N] rot) [0..<k] rot ! r ! c =
      (if N - 1 - c < k then f (N - 1 - c) r else rot ! r ! c))"
proof (induction k)
  case 0
  then show ?case by simp
next
  case (Suc k)
  let ?g = "fold (\<lambda>i rot. fold (\<lambda>j rot'. setAt rot' j (N - 1 - i) (f i j)) [0..<N] rot) [0..<k] rot"
  from Suc have d: "dims N ?g" and
    v: "\<forall>r<N. \<forall>c<N. ?g ! r ! c = (if N - 1 - c < k then f (N - 1 - c) r else rot ! r ! c)"
    by simp_all
  have k: "k < N" using Suc.prems by simp
  have col: "N - 1 - k < N" using k by simp
  note inner = inner_fold [OF d col order_refl, of "f k"]
  show ?case
    using inner v k by (auto simp: less_Suc_eq)
qed

lemma rotateMatrix_dims: "dims (length m) (rotateMatrix m)"
proof -
  let ?N = "length m"
  have d: "dims ?N (replicate ?N (replicate ?N 0))" by (simp add: dims_def)
  show ?thesis
    using outer_fold [OF d order_refl, of "matrixAt m"] by (simp add: rotateMatrix_def Let_def)
qed

lemma length_rotateMatrix [simp]: "length (rotateMatrix m) = length m"
  using rotateMatrix_dims [of m] by (simp add: dims_def)

lemma length_rotateMatrix_row: "r < length m \<Longrightarrow> length (rotateMatrix m ! r) = length m"
  using rotateMatrix_dims [of m] by (simp add: dims_def)

lemma rotateMatrix_nth:
  assumes "r < length m" "c < length m"
  shows "rotateMatrix m ! r ! c = matrixAt m (length m - 1 - c) r"
proof -
  let ?N = "length m"
  have d: "dims ?N (replicate ?N (replicate ?N 0))" by (simp add: dims_def)
  note o = outer_fold [OF d order_refl, of "matrixAt m"]
  have lt: "length m - Suc c < length m" using assms by simp
  show ?thesis
    using o assms lt by (simp add: rotateMatrix_def Let_def)
qed

lemma square_rotateMatrix: "square (rotateMatrix m)"
  by (simp add: square_def list_all_length length_rotateMatrix_row)

lemma rotateMatrix_nth_square:
  assumes "square m" "r < length m" "c < length m"
  shows "rotateMatrix m ! r ! c = m ! (length m - 1 - c) ! r"
  using assms rotateMatrix_nth [of r m c]
  by (auto simp: square_def list_all_length matrixAt_def)

lemma rotateMatrix_four:
  assumes "square m"
  shows "(rotateMatrix ^^ 4) m = m"
proof -
  let ?N = "length m"
  let ?m1 = "rotateMatrix m"
  let ?m2 = "rotateMatrix ?m1"
  let ?m3 = "rotateMatrix ?m2"
  let ?m4 = "rotateMatrix ?m3"
  have l: "length ?m1 = ?N" "length ?m2 = ?N" "length ?m3 = ?N" "length ?m4 = ?N"
    by simp_all
  have s: "square ?m1" "square ?m2" "square ?m3" "square ?m4"
    by (rule square_rotateMatrix)+
  have "?m4 = m"
  proof (rule nth_equalityI)
    show "length ?m4 = length m" by (simp add: l)
  next
    fix r assume "r < length ?m4"
    then have r: "r < ?N" by (simp add: l)
    show "?m4 ! r = m ! r"
    proof (rule nth_equalityI)
      show "length (?m4 ! r) = length (m ! r)"
        using s(4) assms r by (simp add: square_def list_all_length l)
    next
      fix c assume "c < length (?m4 ! r)"
      then have c: "c < ?N" using s(4) r by (simp add: square_def list_all_length l)
      have r': "?N - 1 - r < ?N" and c': "?N - 1 - c < ?N" using r c by simp_all
      have "?m4 ! r ! c = ?m3 ! (?N - 1 - c) ! r"
        using rotateMatrix_nth_square [OF s(3), of r c] r c by (simp add: l)
      also have "\<dots> = ?m2 ! (?N - 1 - r) ! (?N - 1 - c)"
        using rotateMatrix_nth_square [OF s(2), of "?N - 1 - c" r] r c' by (simp add: l)
      also have "\<dots> = ?m1 ! (?N - 1 - (?N - 1 - c)) ! (?N - 1 - r)"
        using rotateMatrix_nth_square [OF s(1), of "?N - 1 - r" "?N - 1 - c"] r' c' by (simp add: l)
      also have "\<dots> = ?m1 ! c ! (?N - 1 - r)" using c by simp
      also have "\<dots> = m ! (?N - 1 - (?N - 1 - r)) ! c"
        using rotateMatrix_nth_square [OF assms, of c "?N - 1 - r"] r' c by simp
      also have "\<dots> = m ! r ! c" using r by simp
      finally show "?m4 ! r ! c = m ! r ! c" .
    qed
  qed
  then show ?thesis by (simp add: numeral_eq_Suc)
qed

text \<open>
  C5: on an N x N matrix, \<open>rotateMatrix\<close> is the clockwise quarter turn,
  \<open>rotated[j][N-1-i] = original[i][j]\<close>, and four applications give the matrix back.
\<close>

theorem rotateMatrix_cycle:
  assumes "square matrix"
  shows "rotateMatrix (rotateMatrix (rotateMatrix (rotateMatrix matrix))) = matrix \<and>
         (\<forall>i<length matrix. \<forall>j<length matrix.
            rotateMatrix matrix ! j ! (length matrix - 1 - i) = matrix ! i ! j)"
proof
  show "rotateMatrix (rotateMatrix (rotateMatrix (rotateMatrix matrix))) = matrix"
    using rotateMatrix_four [OF assms] by (simp add: numeral_eq_Suc)
  show "\<forall>i<length matrix. \<forall>j<length matrix.
          rotateMatrix matrix ! j ! (length matrix - 1 - i) = matrix ! i ! j"
  proof (intro allI impI)
    fix i j assume i: "i < length matrix" and j: "j < length matrix"
    have "length matrix - 1 - i < length matrix" using i by simp
    then show "rotateMatrix matrix ! j ! (length matrix - 1 - i) = matrix ! i ! j"
      using rotateMatrix_nth_square [OF assms j, of "length matrix - 1 - i"] i by simp
  qed
qed

theorem rotateMatrix_cycle_witness:
  "square (exampleShapes TT) \<and>
   rotateMatrix (rotateMatrix (rotateMatrix (rotateMatrix (exampleShapes TT)))) = exampleShapes TT \<and>
   rotateMatrix (exampleShapes TT) = [[0,1,0],[0,1,1],[0,1,0]]"
proof -
  have sq: "square (exampleShapes TT)" by (simp add: square_def)
  have r: "rotateMatrix (exampleShapes TT) = [[0,1,0],[0,1,1],[0,1,0]]" by code_simp
  show ?thesis using sq r rotateMatrix_cycle [OF sq] by simp
qed

section \<open>Properties of the placement check\<close>

lemma readBoard_wf:
  assumes "wf_board board" "0 \<le> boardY" "boardY < int BOARD_HEIGHT"
    "0 \<le> boardX" "boardX < int BOARD_WIDTH"
  shows "readBoard board (nat boardY) (nat boardX) = Inr (board ! nat boardY ! nat boardX)"
    and "truthy (board ! nat boardY ! nat boardX) \<longleftrightarrow> board ! nat boardY ! nat boardX \<noteq> Null"
proof -
  have r: "nat boardY < length board" using assms by (simp add: wf_board_def)
  then have row: "length (board ! nat boardY) = BOARD_WIDTH"
    "list_all (\<lambda>c. c \<noteq> Undefined) (board ! nat boardY)"
    using assms(1) by (simp_all add: wf_board_def list_all_length)
  have c: "nat boardX < length (board ! nat boardY)" using assms row by simp
  show "readBoard board (nat boardY) (nat boardX) = Inr (board ! nat boardY ! nat boardX)"
    using r c by (simp add: readBoard_def)
  have "board ! nat boardY ! nat boardX \<noteq> Undefined"
    using row(2) c by (simp add: list_all_length)
  then show "truthy (board ! nat boardY ! nat boardX) \<longleftrightarrow> board ! nat boardY ! nat boardX \<noteq> Null"
    by (cases "board ! nat boardY ! nat boardX") (simp_all add: truthy_def)
qed

lemma rowValid_wf:
  assumes "wf_board board"
  shows "rowValid board boardY boardX row =
         Inr (\<forall>c<length row. row ! c \<noteq> 0 \<longrightarrow> cellOk board boardY (boardX + int c))"
proof (induction row arbitrary: boardX)
  case Nil
  then show ?case by simp
next
  case (Cons a row)
  have split: "(\<forall>c<length (a # row). (a # row) ! c \<noteq> 0 \<longrightarrow> cellOk board boardY (boardX + int c))
     \<longleftrightarrow> ((a \<noteq> 0 \<longrightarrow> cellOk board boardY boardX) \<and>
          (\<forall>c<length row. row ! c \<noteq> 0 \<longrightarrow> cellOk board boardY (boardX + 1 + int c)))"
    by (auto simp: All_less_Suc2 algebra_simps)
  show ?case
    unfolding split
    using readBoard_wf [OF assms, of boardY boardX]
    by (auto simp: Cons.IH cellOk_def)
qed

lemma rowsValid_wf:
  assumes "wf_board board"
  shows "rowsValid board posX boardY rows =
         Inr (\<forall>r<length rows. \<forall>c<length (rows ! r).
                rows ! r ! c \<noteq> 0 \<longrightarrow> cellOk board (boardY + int r) (posX + int c))"
proof (induction rows arbitrary: boardY)
  case Nil
  then show ?case by simp
next
  case (Cons row rows)
  have split: "(\<forall>r<length (row # rows). \<forall>c<length ((row # rows) ! r).
                (row # rows) ! r ! c \<noteq> 0 \<longrightarrow> cellOk board (boardY + int r) (posX + int c))
     \<longleftrightarrow> ((\<forall>c<length row. row ! c \<noteq> 0 \<longrightarrow> cellOk board boardY (posX + int c)) \<and>
          (\<forall>r<length rows. \<forall>c<length (rows ! r).
                rows ! r ! c \<noteq> 0 \<longrightarrow> cellOk board (boardY + 1 + int r) (posX + int c)))"
    by (auto simp: All_less_Suc2 algebra_simps)
  show ?case
    unfolding split
    by (simp add: Cons.IH rowValid_wf [OF assms])
qed

lemma set_occupiedCells:
  "set (occupiedCells piece) =
     {(r, c). r < length (getRotatedShape piece) \<and> c < length (getRotatedShape piece ! r) \<and>
              getRotatedShape piece ! r ! c \<noteq> 0}"
  by (auto simp: occupiedCells_def Let_def)

lemma validPlacement_iff:
  "validPlacement piece board \<longleftrightarrow>
     (\<forall>r<length (getRotatedShape piece). \<forall>c<length (getRotatedShape piece ! r).
        getRotatedShape piece ! r ! c \<noteq> 0 \<longrightarrow>
        cellOk board (pos_y piece + int r) (pos_x piece + int c))"
  by (auto simp: validPlacement_def list_all_iff set_occupiedCells cellOk_def)

lemma isValidMove_wf:
  "wf_board board \<Longrightarrow> isValidMove piece board = Inr (validPlacement piece board)"
  by (simp add: isValidMove_def rowsValid_wf validPlacement_iff)

text \<open>
  C1: on a board of \<open>BOARD_HEIGHT\<close> rows of \<open>BOARD_WIDTH\<close> cells, \<open>isValidMove\<close> returns
  true exactly when every occupied cell of the rotated shape lies in a column
  \<open>0 \<le> boardX < BOARD_WIDTH\<close> and a row \<open>boardY < BOARD_HEIGHT\<close> and, whenever
  \<open>boardY \<ge> 0\<close>, the board cell there is empty; a cell above the board is exempt from the
  occupancy test only.
\<close>

theorem isValidMove_spec:
  assumes "wf_board board"
  shows "isValidMove piece board =
         Inr (\<forall>r<length (getRotatedShape piece). \<forall>c<length (getRotatedShape piece ! r).
                getRotatedShape piece ! r ! c \<noteq> 0 \<longrightarrow>
                  0 \<le> pos_x piece + int c \<and> pos_x piece + int c < int BOARD_WIDTH \<and>
                  pos_y piece + int r < int BOARD_HEIGHT \<and>
                  (0 \<le> pos_y piece + int r \<longrightarrow>
                     board ! nat (pos_y piece + int r) ! nat (pos_x piece + int c) = Null))"
  using isValidMove_wf [OF assms, of piece]
  by (simp add: validPlacement_iff cellOk_def)

theorem isValidMove_spec_witness:
  "wf_board createEmptyBoard \<and>
   isValidMove (examplePiece TT 3 (-1) 1) createEmptyBoard = Inr True \<and>
   isValidMove (examplePiece TT (-2) 0 1) createEmptyBoard = Inr False"
proof -
  have wf: "wf_board createEmptyBoard" by code_simp
  have a: "isValidMove (examplePiece TT 3 (-1) 1) createEmptyBoard = Inr True" by code_simp
  have b: "isValidMove (examplePiece TT (-2) 0 1) createEmptyBoard = Inr False" by code_simp
  show ?thesis
    using wf a b isValidMove_spec [OF wf, of "examplePiece TT 3 (-1) 1"] by simp
qed

section \<open>Properties of the board model\<close>

lemma clearLines_fold:
  "fold (\<lambda>row (acc, linesCleared).
             if isRowFull row then (replicate BOARD_WIDTH Null # acc, linesCleared + 1)
             else (acc @ [row], linesCleared))
        board (acc, k) =
   (replicate (length (filter isRowFull board)) (replicate BOARD_WIDTH Null) @ acc @
      filter (\<lambda>row. \<not> isRowFull row) board,
    k + length (filter isRowFull board))"
proof (induction board arbitrary: acc k)
  case Nil
  then show ?case by simp
next
  case (Cons row board)
  show ?case
    by (simp add: Cons.IH replicate_app_Cons_same)
qed

lemma clearLines_eq:
  "clearLines board =
     (replicate (length (filter isRowFull board)) (replicate BOARD_WIDTH Null) @
        filter (\<lambda>row. \<not> isRowFull row) board,
      length (filter isRowFull board))"
  by (simp add: clearLines_def clearLines_fold)

lemma length_clearLines: "length (fst (clearLines board)) = length board"
  by (simp add: clearLines_eq sum_length_filter_compl)

text \<open>
  C2: \<open>clearLines\<close> removes exactly the rows without an empty cell, keeps the other rows
  in their order, puts \<open>linesCleared\<close> new empty rows on top, returns the number of full
  rows as \<open>linesCleared\<close>, and the new board has as many rows as the old one.
\<close>

theorem clearLines_spec:
  "clearLines board =
     (replicate (length (filter isRowFull board)) (replicate BOARD_WIDTH Null) @
        filter (\<lambda>row. \<not> isRowFull row) board,
      length (filter isRowFull board)) \<and>
   length (fst (clearLines board)) = length board \<and>
   isRowFull row = (Null \<notin> set row)"
proof (intro conjI)
  show "isRowFull row = (Null \<notin> set row)"
    by (auto simp: isRowFull_def list_all_iff)
qed (simp_all add: clearLines_eq sum_length_filter_compl)

section \<open>Properties of the descent loops\<close>

lemma getRotatedShape_pos [simp]:
  "getRotatedShape (piece\<lparr>pos_y := v\<rparr>) = getRotatedShape piece"
  "getRotatedShape (piece\<lparr>pos_x := w\<rparr>) = getRotatedShape piece"
  by (simp_all add: getRotatedShape_def)

lemma hasOccupied_pos [simp]:
  "hasOccupied (piece\<lparr>pos_y := v\<rparr>) = hasOccupied piece"
  "hasOccupied (piece\<lparr>pos_x := w\<rparr>) = hasOccupied piece"
  by (simp_all add: hasOccupied_def)

lemma rowValid_empty:
  "\<not> list_ex (\<lambda>c. c \<noteq> 0) row \<Longrightarrow> rowValid board boardY boardX row = Inr True"
  by (induction row arbitrary: boardX) simp_all

lemma rowValid_below:
  "int BOARD_HEIGHT \<le> boardY \<Longrightarrow>
   rowValid board boardY boardX row = Inr (\<not> list_ex (\<lambda>c. c \<noteq> 0) row)"
  by (induction row arbitrary: boardX) simp_all

lemma rowsValid_empty:
  "\<not> list_ex (list_ex (\<lambda>c. c \<noteq> 0)) rows \<Longrightarrow> rowsValid board posX boardY rows = Inr True"
  by (induction rows arbitrary: boardY) (simp_all add: rowValid_empty)

lemma rowsValid_below:
  "int BOARD_HEIGHT \<le> boardY \<Longrightarrow>
   rowsValid board posX boardY rows = Inr (\<not> list_ex (list_ex (\<lambda>c. c \<noteq> 0)) rows)"
  by (induction rows arbitrary: boardY) (simp_all add: rowValid_below)

lemma isValidMove_empty:
  "\<not> hasOccupied piece \<Longrightarrow> isValidMove piece board = Inr True"
  by (simp add: isValidMove_def hasOccupied_def rowsValid_empty)

lemma isValidMove_below:
  "int BOARD_HEIGHT \<le> pos_y piece \<Longrightarrow> isValidMove piece board = Inr (\<not> hasOccupied piece)"
  by (simp add: isValidMove_def hasOccupied_def rowsValid_below)

lemma descend_returns:
  assumes "hasOccupied piece"
  shows "\<exists>res. descend piece board = Some res"
  using assms
proof (induction "nat (int BOARD_HEIGHT - pos_y piece)" arbitrary: piece rule: less_induct)
  case less
  let ?next = "piece\<lparr>pos_y := pos_y piece + 1\<rparr>"
  show ?case
  proof (cases "isValidMove ?next board")
    case (Inl e)
    then show ?thesis by (subst descend.simps) simp
  next
    case (Inr ok)
    show ?thesis
    proof (cases ok)
      case False
      with Inr show ?thesis by (subst descend.simps) simp
    next
      case True
      have "pos_y ?next < int BOARD_HEIGHT"
      proof (rule ccontr)
        assume "\<not> pos_y ?next < int BOARD_HEIGHT"
        then have "isValidMove ?next board = Inr (\<not> hasOccupied ?next)"
          by (intro isValidMove_below) simp
        with Inr True less.prems show False by simp
      qed
      then have "nat (int BOARD_HEIGHT - pos_y ?next) < nat (int BOARD_HEIGHT - pos_y piece)"
        by simp
      from less.hyps [OF this] less.prems obtain res where "descend ?next board = Some res"
        by auto
      with Inr True show ?thesis by (subst descend.simps) simp
    qed
  qed
qed

lemma descend_Some_occupied:
  assumes "descend piece board = Some res"
  shows "hasOccupied piece"
proof (rule descend.raw_induct [where P = "\<lambda>p b r. hasOccupied p", OF _ assms])
  fix loop p b r
  assume IH: "\<And>p b y. loop p b = Some y \<Longrightarrow> hasOccupied p"
    and eq: "(case isValidMove (p\<lparr>pos_y := pos_y p + 1\<rparr>) b of
                Inl e \<Rightarrow> Some (Inl e)
              | Inr ok \<Rightarrow> if ok then loop (p\<lparr>pos_y := pos_y p + 1\<rparr>) b else Some (Inr p)) = Some r"
  show "hasOccupied p"
  proof (rule ccontr)
    assume no: "\<not> hasOccupied p"
    then have "isValidMove (p\<lparr>pos_y := pos_y p + 1\<rparr>) b = Inr True"
      by (intro isValidMove_empty) simp
    with eq have "loop (p\<lparr>pos_y := pos_y p + 1\<rparr>) b = Some r" by simp
    from IH [OF this] no show False by simp
  qed
qed

lemma descend_diverges: "\<not> hasOccupied piece \<Longrightarrow> descend piece board = None"
  by (cases "descend piece board") (auto dest: descend_Some_occupied)


lemma hardDropLoop_returns:
  assumes "hasOccupied currentPiece"
  shows "\<exists>res. hardDropLoop currentPiece board newY dropDistance = Some res"
proof (induction "nat (int BOARD_HEIGHT - newY)" arbitrary: newY dropDistance rule: less_induct)
  case less
  let ?next = "currentPiece\<lparr>pos_y := newY + 1\<rparr>"
  show ?case
  proof (cases "isValidMove ?next board")
    case (Inl e)
    then show ?thesis by (subst hardDropLoop.simps) simp
  next
    case (Inr ok)
    show ?thesis
    proof (cases ok)
      case False
      with Inr show ?thesis by (subst hardDropLoop.simps) simp
    next
      case True
      have "newY + 1 < int BOARD_HEIGHT"
      proof (rule ccontr)
        assume "\<not> newY + 1 < int BOARD_HEIGHT"
        then have "isValidMove ?next board = Inr (\<not> hasOccupied ?next)"
          by (intro isValidMove_below) simp
        with Inr True assms show False by simp
      qed
      then have "nat (int BOARD_HEIGHT - (newY + 1)) < nat (int BOARD_HEIGHT - newY)"
        by simp
      from less.hyps [OF this] obtain res
        where "hardDropLoop currentPiece board (newY + 1) (dropDistance + 1) = Some res"
        by auto
      with Inr True show ?thesis by (subst hardDropLoop.simps) simp
    qed
  qed
qed

lemma hardDropLoop_Some_occupied:
  assumes "hardDropLoop currentPiece board newY dropDistance = Some res"
  shows "hasOccupied currentPiece"
proof (rule hardDropLoop.raw_induct [where P = "\<lambda>p b n d r. hasOccupied p", OF _ assms])
  fix loop p b n d r
  assume IH: "\<And>p b n d y. loop p b n d = Some y \<Longrightarrow> hasOccupied p"
    and eq: "(case isValidMove (p\<lparr>pos_y := n + 1\<rparr>) b of
                Inl e \<Rightarrow> Some (Inl e)
              | Inr ok \<Rightarrow> if ok then loop p b (n + 1) (d + 1) else Some (Inr (n, d))) = Some r"
  show "hasOccupied p"
  proof (rule ccontr)
    assume no: "\<not> hasOccupied p"
    then have "isValidMove (p\<lparr>pos_y := n + 1\<rparr>) b = Inr True"
      by (intro isValidMove_empty) simp
    with eq have "loop p b (n + 1) (d + 1) = Some r" by simp
    from IH [OF this] show False using no by simp
  qed
qed

lemma hardDropLoop_diverges:
  "\<not> hasOccupied currentPiece \<Longrightarrow> hardDropLoop currentPiece board newY dropDistance = None"
  by (cases "hardDropLoop currentPiece board newY dropDistance")
     (auto dest: hardDropLoop_Some_occupied)

text \<open>The descent on a well-formed board: where it stops.\<close>

lemma descend_wf:
  assumes "wf_board board" "hasOccupied piece"
  shows "\<exists>y'. pos_y piece \<le> y' \<and> descend piece board = Some (Inr (piece\<lparr>pos_y := y'\<rparr>)) \<and>
              (\<forall>y. pos_y piece < y \<and> y \<le> y' \<longrightarrow> validPlacement (piece\<lparr>pos_y := y\<rparr>) board) \<and>
              \<not> validPlacement (piece\<lparr>pos_y := y' + 1\<rparr>) board"
  using assms(2)
proof (induction "nat (int BOARD_HEIGHT - pos_y piece)" arbitrary: piece rule: less_induct)
  case less
  let ?next = "piece\<lparr>pos_y := pos_y piece + 1\<rparr>"
  have v: "isValidMove ?next board = Inr (validPlacement ?next board)"
    by (rule isValidMove_wf [OF assms(1)])
  show ?case
  proof (cases "validPlacement ?next board")
    case False
    then have "descend piece board = Some (Inr piece)"
      using v by (subst descend.simps) simp
    then show ?thesis using False by (intro exI [of _ "pos_y piece"]) auto
  next
    case True
    have "pos_y ?next < int BOARD_HEIGHT"
    proof (rule ccontr)
      assume "\<not> pos_y ?next < int BOARD_HEIGHT"
      then have "isValidMove ?next board = Inr (\<not> hasOccupied ?next)"
        by (intro isValidMove_below) simp
      with v True less.prems show False by simp
    qed
    then have "nat (int BOARD_HEIGHT - pos_y ?next) < nat (int BOARD_HEIGHT - pos_y piece)"
      by simp
    from less.hyps [OF this] less.prems obtain y' where
      y': "pos_y ?next \<le> y'" "descend ?next board = Some (Inr (?next\<lparr>pos_y := y'\<rparr>))"
        "\<forall>y. pos_y ?next < y \<and> y \<le> y' \<longrightarrow> validPlacement (?next\<lparr>pos_y := y\<rparr>) board"
        "\<not> validPlacement (?next\<lparr>pos_y := y' + 1\<rparr>) board"
      by auto
    have d: "descend piece board = Some (Inr (piece\<lparr>pos_y := y'\<rparr>))"
      using v True y'(2) by (subst descend.simps) simp
    have r: "\<forall>y. pos_y piece < y \<and> y \<le> y' \<longrightarrow> validPlacement (piece\<lparr>pos_y := y\<rparr>) board"
    proof (intro allI impI)
      fix y assume y: "pos_y piece < y \<and> y \<le> y'"
      show "validPlacement (piece\<lparr>pos_y := y\<rparr>) board"
      proof (cases "y = pos_y piece + 1")
        case True
        with \<open>validPlacement ?next board\<close> show ?thesis by simp
      next
        case False
        with y y'(3) show ?thesis by simp
      qed
    qed
    show ?thesis
      using y' d r by (intro exI [of _ y']) simp
  qed
qed

section \<open>Properties of the merge\<close>

lemma wf_board_rect: "wf_board board \<Longrightarrow> rect board"
  by (simp add: wf_board_def rect_def list_all_length)

lemma rowCovers_Nil [simp]: "\<not> rowCovers [] boardX c"
  by (simp add: rowCovers_def)

lemma rowCovers_Cons:
  "rowCovers (a # cells) boardX c \<longleftrightarrow> (a \<noteq> 0 \<and> boardX = c) \<or> rowCovers cells (boardX + 1) c"
  by (auto simp: rowCovers_def Ex_less_Suc2 algebra_simps)

lemma rowsCover_Nil [simp]: "\<not> rowsCover [] posX boardY r c"
  by (simp add: rowsCover_def)

lemma rowsCover_Cons:
  "rowsCover (row # rows) posX boardY r c \<longleftrightarrow>
     (boardY = r \<and> rowCovers row posX c) \<or> rowsCover rows posX (boardY + 1) r c"
  by (auto simp: rowsCover_def Ex_less_Suc2 algebra_simps)

lemma write_in_range:
  assumes "rect nb" "0 \<le> boardY" "boardY < int BOARD_HEIGHT" "boardX < int BOARD_WIDTH"
  shows "rect (nb[nat boardY := writeCell (nb ! nat boardY) boardX v])"
    and "\<forall>r<BOARD_HEIGHT. \<forall>c<BOARD_WIDTH.
           nb[nat boardY := writeCell (nb ! nat boardY) boardX v] ! r ! c =
           (if int r = boardY \<and> int c = boardX then v else nb ! r ! c)"
proof -
  have r: "nat boardY < length nb" "nat boardY < BOARD_HEIGHT" using assms by (simp_all add: rect_def)
  show "rect (nb[nat boardY := writeCell (nb ! nat boardY) boardX v])"
  proof (cases "boardX < 0")
    case True
    then show ?thesis using assms(1) by (simp add: writeCell_def)
  next
    case False
    then have c: "nat boardX < length (nb ! nat boardY)" using assms r by (simp add: rect_def)
    then have w: "writeCell (nb ! nat boardY) boardX v = (nb ! nat boardY)[nat boardX := v]"
      using False by (simp add: writeCell_def)
    show ?thesis using assms(1) r by (auto simp: rect_def w nth_list_update)
  qed
  show "\<forall>r<BOARD_HEIGHT. \<forall>c<BOARD_WIDTH.
           nb[nat boardY := writeCell (nb ! nat boardY) boardX v] ! r ! c =
           (if int r = boardY \<and> int c = boardX then v else nb ! r ! c)"
  proof (cases "boardX < 0")
    case True
    then show ?thesis by (auto simp: writeCell_def)
  next
    case False
    then have c: "nat boardX < length (nb ! nat boardY)" using assms r by (simp add: rect_def)
    then have w: "writeCell (nb ! nat boardY) boardX v = (nb ! nat boardY)[nat boardX := v]"
      using False by (simp add: writeCell_def)
    show ?thesis using assms r c False by (auto simp: w nth_list_update rect_def)
  qed
qed

lemma addRow_ok:
  assumes "rect nb"
    "\<forall>i<length cells. cells ! i \<noteq> 0 \<and> 0 \<le> boardY \<and> boardY < int BOARD_HEIGHT \<longrightarrow>
        boardX + int i < int BOARD_WIDTH"
  shows "\<exists>nb'. addRow nb t boardY boardX cells = Inr nb' \<and> rect nb' \<and>
           (\<forall>r<BOARD_HEIGHT. \<forall>c<BOARD_WIDTH.
              nb' ! r ! c = (if int r = boardY \<and> rowCovers cells boardX (int c) then Kind t
                             else nb ! r ! c))"
  using assms
proof (induction cells arbitrary: nb boardX)
  case Nil
  then show ?case by simp
next
  case (Cons a cells)
  have rest: "\<forall>i<length cells. cells ! i \<noteq> 0 \<and> 0 \<le> boardY \<and> boardY < int BOARD_HEIGHT \<longrightarrow>
        (boardX + 1) + int i < int BOARD_WIDTH"
  proof (intro allI impI)
    fix i assume "i < length cells" "cells ! i \<noteq> 0 \<and> 0 \<le> boardY \<and> boardY < int BOARD_HEIGHT"
    then show "(boardX + 1) + int i < int BOARD_WIDTH"
      using Cons.prems(2) [rule_format, of "Suc i"] by (simp add: algebra_simps)
  qed
  show ?case
  proof (cases "a \<noteq> 0 \<and> 0 \<le> boardY \<and> boardY < int BOARD_HEIGHT")
    case True
    then have x: "boardX < int BOARD_WIDTH"
      using Cons.prems(2) [rule_format, of 0] by simp
    let ?nb1 = "nb[nat boardY := writeCell (nb ! nat boardY) boardX (Kind t)]"
    note w = write_in_range [OF Cons.prems(1) _ _ x, of boardY "Kind t"]
    have r1: "rect ?nb1" using w(1) True by simp
    have v1: "\<forall>r<BOARD_HEIGHT. \<forall>c<BOARD_WIDTH.
           ?nb1 ! r ! c = (if int r = boardY \<and> int c = boardX then Kind t else nb ! r ! c)"
      using w(2) True by simp
    have len: "nat boardY < length nb" using True Cons.prems(1) by (auto simp: rect_def nat_less_iff)
    from Cons.IH [OF r1 rest] obtain nb' where
      nb': "addRow ?nb1 t boardY (boardX + 1) cells = Inr nb'" "rect nb'"
        "\<forall>r<BOARD_HEIGHT. \<forall>c<BOARD_WIDTH.
            nb' ! r ! c = (if int r = boardY \<and> rowCovers cells (boardX + 1) (int c) then Kind t
                           else ?nb1 ! r ! c)"
      by blast
    have "addRow nb t boardY boardX (a # cells) = Inr nb'"
      using True len nb'(1) by simp
    moreover have "\<forall>r<BOARD_HEIGHT. \<forall>c<BOARD_WIDTH.
              nb' ! r ! c = (if int r = boardY \<and> rowCovers (a # cells) boardX (int c) then Kind t
                             else nb ! r ! c)"
      using nb'(3) v1 True by (auto simp: rowCovers_Cons)
    ultimately show ?thesis using nb'(2) by blast
  next
    case False
    from Cons.IH [OF Cons.prems(1) rest] obtain nb' where
      nb': "addRow nb t boardY (boardX + 1) cells = Inr nb'" "rect nb'"
        "\<forall>r<BOARD_HEIGHT. \<forall>c<BOARD_WIDTH.
            nb' ! r ! c = (if int r = boardY \<and> rowCovers cells (boardX + 1) (int c) then Kind t
                           else nb ! r ! c)"
      by blast
    have "addRow nb t boardY boardX (a # cells) = Inr nb'"
      using False nb'(1) by auto
    moreover have "\<forall>r<BOARD_HEIGHT. \<forall>c<BOARD_WIDTH.
              nb' ! r ! c = (if int r = boardY \<and> rowCovers (a # cells) boardX (int c) then Kind t
                             else nb ! r ! c)"
      using nb'(3) False by (auto simp: rowCovers_Cons)
    ultimately show ?thesis using nb'(2) by blast
  qed
qed

lemma addRows_ok:
  assumes "rect nb"
    "\<forall>j<length rows. \<forall>i<length (rows ! j).
        rows ! j ! i \<noteq> 0 \<and> 0 \<le> boardY + int j \<and> boardY + int j < int BOARD_HEIGHT \<longrightarrow>
        posX + int i < int BOARD_WIDTH"
  shows "\<exists>nb'. addRows nb t posX boardY rows = Inr nb' \<and> rect nb' \<and>
           (\<forall>r<BOARD_HEIGHT. \<forall>c<BOARD_WIDTH.
              nb' ! r ! c = (if rowsCover rows posX boardY (int r) (int c) then Kind t
                             else nb ! r ! c))"
  using assms
proof (induction rows arbitrary: nb boardY)
  case Nil
  then show ?case by simp
next
  case (Cons row rows)
  have first: "\<forall>i<length row. row ! i \<noteq> 0 \<and> 0 \<le> boardY \<and> boardY < int BOARD_HEIGHT \<longrightarrow>
        posX + int i < int BOARD_WIDTH"
    using Cons.prems(2) [rule_format, of 0] by simp
  have rest: "\<forall>j<length rows. \<forall>i<length (rows ! j).
        rows ! j ! i \<noteq> 0 \<and> 0 \<le> (boardY + 1) + int j \<and> (boardY + 1) + int j < int BOARD_HEIGHT \<longrightarrow>
        posX + int i < int BOARD_WIDTH"
  proof (intro allI impI)
    fix j i assume "j < length rows" "i < length (rows ! j)"
      "rows ! j ! i \<noteq> 0 \<and> 0 \<le> (boardY + 1) + int j \<and> (boardY + 1) + int j < int BOARD_HEIGHT"
    then show "posX + int i < int BOARD_WIDTH"
      using Cons.prems(2) [rule_format, of "Suc j" i] by (simp add: algebra_simps)
  qed
  from addRow_ok [OF Cons.prems(1) first, of t] obtain nb1 where
    nb1: "addRow nb t boardY posX row = Inr nb1" "rect nb1"
      "\<forall>r<BOARD_HEIGHT. \<forall>c<BOARD_WIDTH.
          nb1 ! r ! c = (if int r = boardY \<and> rowCovers row posX (int c) then Kind t else nb ! r ! c)"
    by blast
  from Cons.IH [OF nb1(2) rest] obtain nb' where
    nb': "addRows nb1 t posX (boardY + 1) rows = Inr nb'" "rect nb'"
      "\<forall>r<BOARD_HEIGHT. \<forall>c<BOARD_WIDTH.
          nb' ! r ! c = (if rowsCover rows posX (boardY + 1) (int r) (int c) then Kind t
                         else nb1 ! r ! c)"
    by blast
  have "addRows nb t posX boardY (row # rows) = Inr nb'"
    using nb1(1) nb'(1) by simp
  moreover have "\<forall>r<BOARD_HEIGHT. \<forall>c<BOARD_WIDTH.
              nb' ! r ! c = (if rowsCover (row # rows) posX boardY (int r) (int c) then Kind t
                             else nb ! r ! c)"
    using nb'(3) nb1(3) by (auto simp: rowsCover_Cons)
  ultimately show ?case using nb'(2) by blast
qed

lemma covers_iff:
  "covers piece r c \<longleftrightarrow>
     rowsCover (getRotatedShape piece) (pos_x piece) (pos_y piece) (int r) (int c)"
  by (auto simp: covers_def list_ex_iff set_occupiedCells rowsCover_def rowCovers_def)

lemma insideRightEdge_iff:
  "insideRightEdge piece \<longleftrightarrow>
     (\<forall>j<length (getRotatedShape piece). \<forall>i<length (getRotatedShape piece ! j).
        getRotatedShape piece ! j ! i \<noteq> 0 \<and> 0 \<le> pos_y piece + int j \<and>
        pos_y piece + int j < int BOARD_HEIGHT \<longrightarrow>
        pos_x piece + int i < int BOARD_WIDTH)"
  by (auto simp: insideRightEdge_def list_all_iff set_occupiedCells)

lemma addPieceToBoard_ok:
  assumes "rect board" "insideRightEdge piece"
  shows "\<exists>nb. addPieceToBoard board piece = Inr nb \<and> rect nb \<and>
           (\<forall>r<BOARD_HEIGHT. \<forall>c<BOARD_WIDTH.
              nb ! r ! c = (if covers piece r c then Kind (kind piece) else board ! r ! c))"
  using addRows_ok [OF assms(1), of "getRotatedShape piece" "pos_y piece" "pos_x piece" "kind piece"]
    assms(2)
  unfolding addPieceToBoard_def covers_iff insideRightEdge_iff by blast

lemma validPlacement_insideRightEdge: "validPlacement piece board \<Longrightarrow> insideRightEdge piece"
  by (auto simp: validPlacement_iff insideRightEdge_iff cellOk_def)


lemma addPieceToBoard_wf:
  assumes "wf_board board" "insideRightEdge piece" "addPieceToBoard board piece = Inr nb"
  shows "wf_board nb"
proof -
  from addPieceToBoard_ok [OF wf_board_rect [OF assms(1)] assms(2)] assms(3)
  have r: "rect nb" and
    v: "\<forall>r<BOARD_HEIGHT. \<forall>c<BOARD_WIDTH.
          nb ! r ! c = (if covers piece r c then Kind (kind piece) else board ! r ! c)"
    by auto
  have "nb ! r ! c \<noteq> Undefined" if "r < BOARD_HEIGHT" "c < BOARD_WIDTH" for r c
  proof -
    have "board ! r ! c \<noteq> Undefined"
      using assms(1) that by (simp add: wf_board_def list_all_length)
    then show ?thesis using v that by simp
  qed
  then show ?thesis using r by (simp add: wf_board_def rect_def list_all_length)
qed

lemma copyRows_fold:
  "(\<forall>a\<in>set b. a < length st) \<Longrightarrow>
   fold (\<lambda>a (newBoard, st). (newBoard @ [length st], st @ [st ! a])) b (acc, st) =
   (acc @ [length st..<length st + length b], st @ map (\<lambda>a. st ! a) b)"
proof (induction b arbitrary: acc st)
  case Nil
  then show ?case by simp
next
  case (Cons a b)
  have "\<forall>a'\<in>set b. a' < length (st @ [st ! a])" using Cons.prems by auto
  from Cons.IH [OF this, of "acc @ [length st]"]
  have "fold (\<lambda>a (newBoard, st). (newBoard @ [length st], st @ [st ! a])) b
          (acc @ [length st], st @ [st ! a]) =
        ((acc @ [length st]) @ [length st + 1..<length st + 1 + length b],
         (st @ [st ! a]) @ map (\<lambda>a'. (st @ [st ! a]) ! a') b)"
    by simp
  moreover have "map (\<lambda>a'. (st @ [st ! a]) ! a') b = map (\<lambda>a'. st ! a') b"
    using Cons.prems by (auto simp: nth_append)
  moreover have "[length st..<length st + length (a # b)] =
                 length st # [length st + 1..<length st + 1 + length b]"
    by (simp add: upt_rec)
  ultimately show ?case by simp
qed

lemma copyRows_eq:
  "(\<forall>a\<in>set b. a < length store) \<Longrightarrow>
   copyRows store b = ([length store..<length store + length b], store @ map (\<lambda>a. store ! a) b)"
  unfolding copyRows_def using copyRows_fold [of b store "[]"] by simp

lemma derefBoard_update:
  assumes "distinct nb" "k < length nb"
  shows "derefBoard (st[nb ! k := v]) nb = (derefBoard st nb)[k := st[nb ! k := v] ! (nb ! k)]"
proof (rule nth_equalityI)
  show "length (derefBoard (st[nb ! k := v]) nb) =
        length ((derefBoard st nb)[k := st[nb ! k := v] ! (nb ! k)])"
    by (simp add: derefBoard_def)
next
  fix i assume "i < length (derefBoard (st[nb ! k := v]) nb)"
  then have i: "i < length nb" by (simp add: derefBoard_def)
  show "derefBoard (st[nb ! k := v]) nb ! i =
        (derefBoard st nb)[k := st[nb ! k := v] ! (nb ! k)] ! i"
  proof (cases "i = k")
    case True
    then show ?thesis using i by (simp add: derefBoard_def)
  next
    case False
    then have "nb ! i \<noteq> nb ! k" using assms i by (simp add: nth_eq_iff_index_eq)
    then show ?thesis using i False by (simp add: derefBoard_def)
  qed
qed

lemma addRow_heap_sim:
  assumes "heapInv L st nb"
  shows "case addRow_heap st nb t boardY boardX cells of
           Inl e \<Rightarrow> addRow (derefBoard st nb) t boardY boardX cells = Inl e
         | Inr st' \<Rightarrow> addRow (derefBoard st nb) t boardY boardX cells = Inr (derefBoard st' nb) \<and>
                     heapInv L st' nb \<and> length st' = length st \<and> (\<forall>a<L. st' ! a = st ! a)"
  using assms
proof (induction cells arbitrary: st boardX)
  case Nil
  then show ?case by simp
next
  case (Cons c cells)
  show ?case
  proof (cases "c \<noteq> 0 \<and> boardY \<ge> 0 \<and> boardY < int BOARD_HEIGHT")
    case False
    have h: "addRow_heap st nb t boardY boardX (c # cells) =
             addRow_heap st nb t boardY (boardX + 1) cells"
      using False by auto
    have v: "addRow (derefBoard st nb) t boardY boardX (c # cells) =
             addRow (derefBoard st nb) t boardY (boardX + 1) cells"
      using False by auto
    show ?thesis unfolding h v by (rule Cons.IH [OF Cons.prems])
  next
    case True
    show ?thesis
    proof (cases "nat boardY < length nb")
      case False
      then show ?thesis using True by (simp add: derefBoard_def)
    next
      case inb: True
      let ?a = "nb ! nat boardY"
      let ?st1 = "st[?a := writeCell (st ! ?a) boardX (Kind t)]"
      have a: "L \<le> ?a" "?a < length st" using Cons.prems inb by (auto simp: heapInv_def)
      have inv1: "heapInv L ?st1 nb" using Cons.prems by (simp add: heapInv_def)
      have d1: "derefBoard ?st1 nb =
                (derefBoard st nb)[nat boardY := writeCell (derefBoard st nb ! nat boardY) boardX (Kind t)]"
        using derefBoard_update [of nb "nat boardY" st] Cons.prems inb a
        by (simp add: heapInv_def derefBoard_def)
      have old: "\<forall>a'<L. ?st1 ! a' = st ! a'" using a by simp
      have h: "addRow_heap st nb t boardY boardX (c # cells) =
               addRow_heap ?st1 nb t boardY (boardX + 1) cells"
        using True inb by simp
      have v: "addRow (derefBoard st nb) t boardY boardX (c # cells) =
               addRow (derefBoard ?st1 nb) t boardY (boardX + 1) cells"
        unfolding d1 using True inb by (simp add: derefBoard_def)
      note IH = Cons.IH [OF inv1, of "boardX + 1"]
      show ?thesis
      proof (cases "addRow_heap ?st1 nb t boardY (boardX + 1) cells")
        case (Inl e)
        then show ?thesis using IH unfolding h v by simp
      next
        case (Inr st')
        then show ?thesis using IH old unfolding h v by simp
      qed
    qed
  qed
qed

lemma addRows_heap_sim:
  assumes "heapInv L st nb"
  shows "case addRows_heap st nb t posX boardY rows of
           Inl e \<Rightarrow> addRows (derefBoard st nb) t posX boardY rows = Inl e
         | Inr st' \<Rightarrow> addRows (derefBoard st nb) t posX boardY rows = Inr (derefBoard st' nb) \<and>
                     heapInv L st' nb \<and> length st' = length st \<and> (\<forall>a<L. st' ! a = st ! a)"
  using assms
proof (induction rows arbitrary: st boardY)
  case Nil
  then show ?case by simp
next
  case (Cons row rows)
  show ?case
  proof (cases "addRow_heap st nb t boardY posX row")
    case (Inl e)
    then show ?thesis using addRow_heap_sim [OF Cons.prems, of t boardY posX row] by simp
  next
    case (Inr st1)
    with addRow_heap_sim [OF Cons.prems, of t boardY posX row] have
      s1: "addRow (derefBoard st nb) t boardY posX row = Inr (derefBoard st1 nb)"
        "heapInv L st1 nb" "length st1 = length st" "\<forall>a<L. st1 ! a = st ! a"
      by simp_all
    show ?thesis
      using Cons.IH [OF s1(2), of "boardY + 1"] Inr s1(1,3,4)
      by (auto split: sum.splits)
  qed
qed

lemma addPieceToBoard_heap_sim:
  assumes "\<forall>a\<in>set board. a < length store"
  shows "case addPieceToBoard_heap store board piece of
           Inl e \<Rightarrow> addPieceToBoard (derefBoard store board) piece = Inl e
         | Inr (newBoard, store') \<Rightarrow>
             addPieceToBoard (derefBoard store board) piece = Inr (derefBoard store' newBoard) \<and>
             (\<forall>a<length store. store' ! a = store ! a) \<and>
             derefBoard store' board = derefBoard store board \<and>
             (\<forall>a\<in>set newBoard. length store \<le> a)"
proof -
  let ?nb = "[length store..<length store + length board]"
  let ?st = "store @ map (\<lambda>a. store ! a) board"
  have c: "copyRows store board = (?nb, ?st)" by (rule copyRows_eq [OF assms])
  have inv: "heapInv (length store) ?st ?nb" by (simp add: heapInv_def)
  have d: "derefBoard ?st ?nb = derefBoard store board"
    by (auto simp: derefBoard_def nth_append intro!: nth_equalityI)
  note sim = addRows_heap_sim [OF inv, of "kind piece" "pos_x piece" "pos_y piece"
      "getRotatedShape piece"]
  show ?thesis
  proof (cases "addRows_heap ?st ?nb (kind piece) (pos_x piece) (pos_y piece) (getRotatedShape piece)")
    case (Inl e)
    then show ?thesis using sim by (simp add: addPieceToBoard_heap_def c addPieceToBoard_def d)
  next
    case (Inr st')
    with sim have s: "addRows (derefBoard ?st ?nb) (kind piece) (pos_x piece) (pos_y piece)
         (getRotatedShape piece) = Inr (derefBoard st' ?nb)"
      "\<forall>a<length store. st' ! a = ?st ! a"
      by simp_all
    have old: "\<forall>a<length store. st' ! a = store ! a" using s(2) by (simp add: nth_append)
    have "derefBoard st' board = derefBoard store board"
      using old assms by (simp add: derefBoard_def)
    then show ?thesis
      using Inr s(1) old by (simp add: addPieceToBoard_heap_def c addPieceToBoard_def d)
  qed
qed

lemma length_writeCell: "length row \<le> length (writeCell row boardX v)"
  by (simp add: writeCell_def)

lemma length_writeCell_past:
  "int BOARD_WIDTH \<le> boardX \<Longrightarrow> BOARD_WIDTH < length (writeCell row boardX v)"
  by (auto simp: writeCell_def)

lemma addRow_wide:
  assumes "wide nb"
  shows "\<exists>nb'. addRow nb t boardY boardX cells = Inr nb' \<and> wide nb' \<and>
           (\<forall>r<BOARD_HEIGHT. length (nb ! r) \<le> length (nb' ! r)) \<and>
           (0 \<le> boardY \<and> boardY < int BOARD_HEIGHT \<and>
            (\<exists>i<length cells. cells ! i \<noteq> 0 \<and> int BOARD_WIDTH \<le> boardX + int i) \<longrightarrow>
            BOARD_WIDTH < length (nb' ! nat boardY))"
  using assms
proof (induction cells arbitrary: nb boardX)
  case Nil
  then show ?case by simp
next
  case (Cons a cells)
  show ?case
  proof (cases "a \<noteq> 0 \<and> 0 \<le> boardY \<and> boardY < int BOARD_HEIGHT")
    case True
    let ?nb1 = "nb[nat boardY := writeCell (nb ! nat boardY) boardX (Kind t)]"
    have y: "nat boardY < BOARD_HEIGHT" "nat boardY < length nb"
      using True Cons.prems by (auto simp: wide_def)
    have w1: "wide ?nb1"
      using Cons.prems y length_writeCell [of "nb ! nat boardY" boardX "Kind t"]
      by (auto simp: wide_def nth_list_update intro: order_trans)
    have mono1: "\<forall>r<BOARD_HEIGHT. length (nb ! r) \<le> length (?nb1 ! r)"
      using y length_writeCell [of "nb ! nat boardY" boardX "Kind t"]
      by (auto simp: nth_list_update)
    have past1: "int BOARD_WIDTH \<le> boardX \<longrightarrow> BOARD_WIDTH < length (?nb1 ! nat boardY)"
      using y by (simp add: length_writeCell_past)
    from Cons.IH [OF w1, of "boardX + 1"] obtain nb' where
      nb': "addRow ?nb1 t boardY (boardX + 1) cells = Inr nb'" "wide nb'"
        "\<forall>r<BOARD_HEIGHT. length (?nb1 ! r) \<le> length (nb' ! r)"
        "0 \<le> boardY \<and> boardY < int BOARD_HEIGHT \<and>
            (\<exists>i<length cells. cells ! i \<noteq> 0 \<and> int BOARD_WIDTH \<le> (boardX + 1) + int i) \<longrightarrow>
            BOARD_WIDTH < length (nb' ! nat boardY)"
      by blast
    have r: "addRow nb t boardY boardX (a # cells) = Inr nb'"
      using True y nb'(1) by simp
    have mono: "\<forall>r<BOARD_HEIGHT. length (nb ! r) \<le> length (nb' ! r)"
      using mono1 nb'(3) by (meson order_trans)
    have past: "BOARD_WIDTH < length (nb' ! nat boardY)"
      if "\<exists>i<length (a # cells). (a # cells) ! i \<noteq> 0 \<and> int BOARD_WIDTH \<le> boardX + int i"
    proof -
      from that obtain i where i: "i < length (a # cells)" "(a # cells) ! i \<noteq> 0"
        "int BOARD_WIDTH \<le> boardX + int i" by blast
      show ?thesis
      proof (cases i)
        case 0
        then have "BOARD_WIDTH < length (?nb1 ! nat boardY)" using i past1 by simp
        then show ?thesis using nb'(3) y(1) by (meson less_le_trans)
      next
        case (Suc k)
        then have "k < length cells \<and> cells ! k \<noteq> 0 \<and> int BOARD_WIDTH \<le> (boardX + 1) + int k"
          using i by simp
        then show ?thesis using nb'(4) True by blast
      qed
    qed
    show ?thesis using r nb'(2) mono past by blast
  next
    case False
    from Cons.IH [OF Cons.prems, of "boardX + 1"] obtain nb' where
      nb': "addRow nb t boardY (boardX + 1) cells = Inr nb'" "wide nb'"
        "\<forall>r<BOARD_HEIGHT. length (nb ! r) \<le> length (nb' ! r)"
        "0 \<le> boardY \<and> boardY < int BOARD_HEIGHT \<and>
            (\<exists>i<length cells. cells ! i \<noteq> 0 \<and> int BOARD_WIDTH \<le> (boardX + 1) + int i) \<longrightarrow>
            BOARD_WIDTH < length (nb' ! nat boardY)"
      by blast
    have r: "addRow nb t boardY boardX (a # cells) = Inr nb'"
      using False nb'(1) by auto
    have past: "BOARD_WIDTH < length (nb' ! nat boardY)"
      if h: "0 \<le> boardY \<and> boardY < int BOARD_HEIGHT \<and>
         (\<exists>i<length (a # cells). (a # cells) ! i \<noteq> 0 \<and> int BOARD_WIDTH \<le> boardX + int i)"
    proof -
      from h obtain i where i: "i < length (a # cells)" "(a # cells) ! i \<noteq> 0"
        "int BOARD_WIDTH \<le> boardX + int i" by blast
      have "a = 0" using False h by simp
      then obtain k where k: "i = Suc k" using i(2) by (cases i) simp_all
      then have "k < length cells \<and> cells ! k \<noteq> 0 \<and> int BOARD_WIDTH \<le> (boardX + 1) + int k"
        using i by simp
      then show ?thesis using nb'(4) h by blast
    qed
    show ?thesis using r nb'(2,3) past by blast
  qed
qed

lemma addRows_wide:
  assumes "wide nb"
  shows "\<exists>nb'. addRows nb t posX boardY rows = Inr nb' \<and> wide nb' \<and>
           (\<forall>r<BOARD_HEIGHT. length (nb ! r) \<le> length (nb' ! r)) \<and>
           ((\<exists>j<length rows. 0 \<le> boardY + int j \<and> boardY + int j < int BOARD_HEIGHT \<and>
               (\<exists>i<length (rows ! j). rows ! j ! i \<noteq> 0 \<and> int BOARD_WIDTH \<le> posX + int i)) \<longrightarrow>
            (\<exists>r<BOARD_HEIGHT. BOARD_WIDTH < length (nb' ! r)))"
  using assms
proof (induction rows arbitrary: nb boardY)
  case Nil
  then show ?case by simp
next
  case (Cons row rows)
  from addRow_wide [OF Cons.prems, of t boardY posX row] obtain nb1 where
    nb1: "addRow nb t boardY posX row = Inr nb1" "wide nb1"
      "\<forall>r<BOARD_HEIGHT. length (nb ! r) \<le> length (nb1 ! r)"
      "0 \<le> boardY \<and> boardY < int BOARD_HEIGHT \<and>
            (\<exists>i<length row. row ! i \<noteq> 0 \<and> int BOARD_WIDTH \<le> posX + int i) \<longrightarrow>
            BOARD_WIDTH < length (nb1 ! nat boardY)"
    by blast
  from Cons.IH [OF nb1(2), of "boardY + 1"] obtain nb' where
    nb': "addRows nb1 t posX (boardY + 1) rows = Inr nb'" "wide nb'"
      "\<forall>r<BOARD_HEIGHT. length (nb1 ! r) \<le> length (nb' ! r)"
      "(\<exists>j<length rows. 0 \<le> (boardY + 1) + int j \<and> (boardY + 1) + int j < int BOARD_HEIGHT \<and>
               (\<exists>i<length (rows ! j). rows ! j ! i \<noteq> 0 \<and> int BOARD_WIDTH \<le> posX + int i)) \<longrightarrow>
            (\<exists>r<BOARD_HEIGHT. BOARD_WIDTH < length (nb' ! r))"
    by blast
  have r: "addRows nb t posX boardY (row # rows) = Inr nb'" using nb1(1) nb'(1) by simp
  have mono: "\<forall>r<BOARD_HEIGHT. length (nb ! r) \<le> length (nb' ! r)"
    using nb1(3) nb'(3) by (meson order_trans)
  have past: "\<exists>r<BOARD_HEIGHT. BOARD_WIDTH < length (nb' ! r)"
    if "\<exists>j<length (row # rows). 0 \<le> boardY + int j \<and> boardY + int j < int BOARD_HEIGHT \<and>
           (\<exists>i<length ((row # rows) ! j). (row # rows) ! j ! i \<noteq> 0 \<and>
                int BOARD_WIDTH \<le> posX + int i)"
  proof -
    from that obtain j where j: "j < length (row # rows)"
      "0 \<le> boardY + int j" "boardY + int j < int BOARD_HEIGHT"
      "\<exists>i<length ((row # rows) ! j). (row # rows) ! j ! i \<noteq> 0 \<and> int BOARD_WIDTH \<le> posX + int i"
      by blast
    show ?thesis
    proof (cases j)
      case 0
      then have b: "BOARD_WIDTH < length (nb1 ! nat boardY)" using j nb1(4) by simp
      have y: "nat boardY < BOARD_HEIGHT" using j 0 by simp
      then have "BOARD_WIDTH < length (nb' ! nat boardY)"
        using b nb'(3) by (meson less_le_trans)
      then show ?thesis using y by blast
    next
      case (Suc k)
      then have "k < length rows \<and> 0 \<le> (boardY + 1) + int k \<and>
                 (boardY + 1) + int k < int BOARD_HEIGHT \<and>
                 (\<exists>i<length (rows ! k). rows ! k ! i \<noteq> 0 \<and> int BOARD_WIDTH \<le> posX + int i)"
        using j by (simp add: algebra_simps)
      then show ?thesis using nb'(4) by blast
    qed
  qed
  show ?case using r nb'(2) mono past by blast
qed

lemma addPieceToBoard_overhang:
  assumes "rect board" "\<not> insideRightEdge piece"
  shows "\<exists>nb. addPieceToBoard board piece = Inr nb \<and> map length nb \<noteq> map length board"
proof -
  have w: "wide board" using assms(1) by (simp add: wide_def rect_def)
  from assms(2) obtain j i where
    ji: "j < length (getRotatedShape piece)" "i < length (getRotatedShape piece ! j)"
      "getRotatedShape piece ! j ! i \<noteq> 0" "0 \<le> pos_y piece + int j"
      "pos_y piece + int j < int BOARD_HEIGHT" "int BOARD_WIDTH \<le> pos_x piece + int i"
    unfolding insideRightEdge_iff by (auto simp: not_less)
  from addRows_wide [OF w, of "kind piece" "pos_x piece" "pos_y piece" "getRotatedShape piece"]
  obtain nb where
    nb: "addPieceToBoard board piece = Inr nb" "wide nb"
      "(\<exists>j<length (getRotatedShape piece).
          0 \<le> pos_y piece + int j \<and> pos_y piece + int j < int BOARD_HEIGHT \<and>
          (\<exists>i<length (getRotatedShape piece ! j).
              getRotatedShape piece ! j ! i \<noteq> 0 \<and> int BOARD_WIDTH \<le> pos_x piece + int i)) \<longrightarrow>
        (\<exists>r<BOARD_HEIGHT. BOARD_WIDTH < length (nb ! r))"
    unfolding addPieceToBoard_def by blast
  from nb(3) ji obtain r where r: "r < BOARD_HEIGHT" "BOARD_WIDTH < length (nb ! r)" by blast
  have "length (board ! r) = BOARD_WIDTH" using assms(1) r(1) by (simp add: rect_def)
  then have "map length nb ! r \<noteq> map length board ! r"
    using r nb(2) assms(1) by (simp add: wide_def rect_def)
  then have "map length nb \<noteq> map length board" by metis
  then show ?thesis using nb(1) by blast
qed

text \<open>The merge of a piece that does not reach past the right edge.\<close>

lemma addPieceToBoard_inside:
  assumes "wf_board board" "insideRightEdge piece"
  shows "\<exists>newBoard. addPieceToBoard board piece = Inr newBoard \<and>
           wf_board newBoard \<and> map length newBoard = map length board \<and>
           (\<forall>r<BOARD_HEIGHT. \<forall>c<BOARD_WIDTH.
              newBoard ! r ! c =
                (if covers piece r c then Kind (kind piece) else board ! r ! c)) \<and>
           (\<forall>store boardRef.
              (\<forall>a\<in>set boardRef. a < length store) \<and> derefBoard store boardRef = board \<longrightarrow>
              (\<exists>newRef store'.
                 addPieceToBoard_heap store boardRef piece = Inr (newRef, store') \<and>
                 derefBoard store' newRef = newBoard \<and>
                 (\<forall>a\<in>set newRef. length store \<le> a) \<and>
                 (\<forall>a<length store. store' ! a = store ! a) \<and>
                 derefBoard store' boardRef = board))"
proof -
  have rb: "rect board" by (rule wf_board_rect [OF assms(1)])
  from addPieceToBoard_ok [OF rb assms(2)] obtain nb where
    nb: "addPieceToBoard board piece = Inr nb" "rect nb"
      "\<forall>r<BOARD_HEIGHT. \<forall>c<BOARD_WIDTH.
          nb ! r ! c = (if covers piece r c then Kind (kind piece) else board ! r ! c)"
    by blast
  have len: "map length nb = map length board"
    using rb nb(2) by (auto simp: rect_def intro: nth_equalityI)
  have wf: "wf_board nb" by (rule addPieceToBoard_wf [OF assms nb(1)])
  have heap: "\<forall>store boardRef.
              (\<forall>a\<in>set boardRef. a < length store) \<and> derefBoard store boardRef = board \<longrightarrow>
              (\<exists>newRef store'.
                 addPieceToBoard_heap store boardRef piece = Inr (newRef, store') \<and>
                 derefBoard store' newRef = nb \<and>
                 (\<forall>a\<in>set newRef. length store \<le> a) \<and>
                 (\<forall>a<length store. store' ! a = store ! a) \<and>
                 derefBoard store' boardRef = board)"
  proof (intro allI impI)
    fix store boardRef
    assume h: "(\<forall>a\<in>set boardRef. a < length store) \<and> derefBoard store boardRef = board"
    then have refs: "\<forall>a\<in>set boardRef. a < length store" and d: "derefBoard store boardRef = board"
      by simp_all
    note sim = addPieceToBoard_heap_sim [OF refs, of piece]
    show "\<exists>newRef store'.
                 addPieceToBoard_heap store boardRef piece = Inr (newRef, store') \<and>
                 derefBoard store' newRef = nb \<and>
                 (\<forall>a\<in>set newRef. length store \<le> a) \<and>
                 (\<forall>a<length store. store' ! a = store ! a) \<and>
                 derefBoard store' boardRef = board"
    proof (cases "addPieceToBoard_heap store boardRef piece")
      case (Inl e)
      then show ?thesis using sim nb(1) d by simp
    next
      case (Inr res)
      then show ?thesis using sim nb(1) d by (cases res) auto
    qed
  qed
  show ?thesis
    by (intro exI [of _ nb] conjI nb(1) wf len nb(3) heap)
qed

text \<open>
  C8 (amended): for a board of \<open>BOARD_HEIGHT\<close> rows of \<open>BOARD_WIDTH\<close> cells and a piece none of
  whose occupied cells in the rows \<open>0 \<le> boardY < BOARD_HEIGHT\<close> lies in a column
  \<open>boardX \<ge> BOARD_WIDTH\<close>, \<open>addPieceToBoard\<close> returns a board of the same dimensions in which
  exactly the positions under an occupied cell of the piece hold the piece's kind and every
  other cell is the cell of the input board. The piece may reach over the top, the bottom
  and the left edge: those cells are not written to the board. On the heap the result is a
  new outer array of new row arrays, and every array that existed before the call, the rows
  of the input board among them, is as it was. For every other piece \<open>addPieceToBoard\<close>
  returns a board with a row of more than \<open>BOARD_WIDTH\<close> cells.
\<close>

theorem addPieceToBoard_spec:
  assumes "wf_board board"
  shows "(insideRightEdge piece \<longrightarrow>
           (\<exists>newBoard. addPieceToBoard board piece = Inr newBoard \<and>
              wf_board newBoard \<and> map length newBoard = map length board \<and>
              (\<forall>r<BOARD_HEIGHT. \<forall>c<BOARD_WIDTH.
                 newBoard ! r ! c =
                   (if covers piece r c then Kind (kind piece) else board ! r ! c)) \<and>
              (\<forall>store boardRef.
                 (\<forall>a\<in>set boardRef. a < length store) \<and> derefBoard store boardRef = board \<longrightarrow>
                 (\<exists>newRef store'.
                    addPieceToBoard_heap store boardRef piece = Inr (newRef, store') \<and>
                    derefBoard store' newRef = newBoard \<and>
                    (\<forall>a\<in>set newRef. length store \<le> a) \<and>
                    (\<forall>a<length store. store' ! a = store ! a) \<and>
                    derefBoard store' boardRef = board)))) \<and>
         (\<not> insideRightEdge piece \<longrightarrow>
           (\<exists>newBoard. addPieceToBoard board piece = Inr newBoard \<and>
              map length newBoard \<noteq> map length board))"
proof (intro conjI impI)
  assume "insideRightEdge piece"
  then show "\<exists>newBoard. addPieceToBoard board piece = Inr newBoard \<and>
              wf_board newBoard \<and> map length newBoard = map length board \<and>
              (\<forall>r<BOARD_HEIGHT. \<forall>c<BOARD_WIDTH.
                 newBoard ! r ! c =
                   (if covers piece r c then Kind (kind piece) else board ! r ! c)) \<and>
              (\<forall>store boardRef.
                 (\<forall>a\<in>set boardRef. a < length store) \<and> derefBoard store boardRef = board \<longrightarrow>
                 (\<exists>newRef store'.
                    addPieceToBoard_heap store boardRef piece = Inr (newRef, store') \<and>
                    derefBoard store' newRef = newBoard \<and>
                    (\<forall>a\<in>set newRef. length store \<le> a) \<and>
                    (\<forall>a<length store. store' ! a = store ! a) \<and>
                    derefBoard store' boardRef = board))"
    by (rule addPieceToBoard_inside [OF assms])
next
  assume "\<not> insideRightEdge piece"
  then show "\<exists>newBoard. addPieceToBoard board piece = Inr newBoard \<and>
              map length newBoard \<noteq> map length board"
    by (rule addPieceToBoard_overhang [OF wf_board_rect [OF assms]])
qed

theorem addPieceToBoard_spec_witness:
  "wf_board createEmptyBoard \<and> insideRightEdge (examplePiece TO (- 1) (- 1) 0) \<and>
   map_sum id (\<lambda>nb. (nb ! 0 ! 0, nb ! 0 ! 1, nb ! 1 ! 0, map length nb))
     (addPieceToBoard createEmptyBoard (examplePiece TO (- 1) (- 1) 0)) =
     Inr (Kind TO, Null, Null, replicate 20 10) \<and>
   map_sum id (\<lambda>(newRef, store'). (newRef, take 20 store' = createEmptyBoard, store' ! 20 ! 0))
     (addPieceToBoard_heap createEmptyBoard [0..<20] (examplePiece TO (- 1) (- 1) 0)) =
     Inr ([20..<40], True, Kind TO) \<and>
   \<not> insideRightEdge (examplePiece TI 7 0 0) \<and>
   map_sum id (map length) (addPieceToBoard createEmptyBoard (examplePiece TI 7 0 0)) =
     Inr (10 # 11 # replicate 18 10)"
proof -
  have wf: "wf_board createEmptyBoard" by code_simp
  have wc: "insideRightEdge (examplePiece TO (- 1) (- 1) 0)" by code_simp
  have v: "map_sum id (\<lambda>nb. (nb ! 0 ! 0, nb ! 0 ! 1, nb ! 1 ! 0, map length nb))
     (addPieceToBoard createEmptyBoard (examplePiece TO (- 1) (- 1) 0)) =
     Inr (Kind TO, Null, Null, replicate 20 10)" by code_simp
  have h: "map_sum id (\<lambda>(newRef, store'). (newRef, take 20 store' = createEmptyBoard, store' ! 20 ! 0))
     (addPieceToBoard_heap createEmptyBoard [0..<20] (examplePiece TO (- 1) (- 1) 0)) =
     Inr ([20..<40], True, Kind TO)" by code_simp
  have nc: "\<not> insideRightEdge (examplePiece TI 7 0 0)" by code_simp
  have w: "map_sum id (map length) (addPieceToBoard createEmptyBoard (examplePiece TI 7 0 0)) =
     Inr (10 # 11 # replicate 18 10)" by code_simp
  show ?thesis
    using wf wc v h nc w addPieceToBoard_spec [OF wf, of "examplePiece TO (- 1) (- 1) 0"]
      addPieceToBoard_spec [OF wf, of "examplePiece TI 7 0 0"]
    by simp
qed

text \<open>
  C8 as stated, for every piece, fails: \<open>addPieceToBoard\<close> tests the row only, so a piece
  that reaches past the right edge lengthens the rows it touches.
\<close>

theorem addPieceToBoard_widens:
  "wf_board createEmptyBoard \<and>
   map_sum id (map length) (addPieceToBoard createEmptyBoard (examplePiece TO 9 0 0)) =
     Inr (11 # 11 # replicate 18 10) \<and>
   map length createEmptyBoard = replicate 20 10"
  by code_simp

section \<open>Termination of the descent and the ghost projection\<close>

lemma getRotatedShape_fields [simp]:
  "getRotatedShape \<lparr>kind = t, shape = sh, pos_x = a, pos_y = b, rotation = n\<rparr> = (rotateMatrix ^^ n) sh"
  by (simp add: getRotatedShape_def)

lemma getRotatedShape_rotation [simp]:
  "getRotatedShape (piece\<lparr>rotation := n\<rparr>) = (rotateMatrix ^^ n) (shape piece)"
  by (simp add: getRotatedShape_def)

lemma bindR_simps [simp]:
  "bindR None f = None"
  "bindR (Some (Inl e)) f = Some (Inl e)"
  "bindR (Some (Inr v)) f = f v"
  "bindR (liftE (Inl e)) f = Some (Inl e)"
  "bindR (liftE (Inr v)) f = f v"
  "bindR (returnR v) f = f v"
  by (simp_all add: bindR_def liftE_def returnR_def)

lemma bindR_liftE_returns:
  "(\<And>v. f v \<noteq> None) \<Longrightarrow> bindR (liftE r) f \<noteq> None"
  by (cases r) simp_all

lemma returnR_not_None [simp]: "returnR v \<noteq> None" "liftE r \<noteq> None"
  by (simp_all add: returnR_def liftE_def)

lemma simulatePlacement_returns:
  assumes "hasOccupied \<lparr>kind = t, shape = shapes t, pos_x = x, pos_y = 0, rotation = rot\<rparr>"
  shows "simulatePlacement shapes t board x rot \<noteq> None"
proof (cases "generateNewPiece shapes t")
  case (Inl e)
  then show ?thesis by (simp add: simulatePlacement_def)
next
  case (Inr piece0)
  let ?p = "piece0\<lparr>rotation := rot, pos_x := x, pos_y := 0\<rparr>"
  have sh: "shape piece0 = shapes t"
    using Inr by (auto simp: generateNewPiece_def split: list.splits)
  have "hasOccupied ?p" using assms by (simp add: hasOccupied_def sh)
  from descend_returns [OF this, of board] obtain res where res: "descend ?p board = Some res"
    by blast
  show ?thesis
  proof (cases res)
    case (Inl e)
    with res Inr show ?thesis by (simp add: simulatePlacement_def)
  next
    case (Inr piece)
    have "bindR (liftE (isValidMove piece board))
            (\<lambda>ok. if \<not> ok then returnR None
                  else bindR (liftE (addPieceToBoard board piece))
                         (\<lambda>newBoard. returnR (Some (fst (clearLines newBoard))))) \<noteq> None"
      by (cases "isValidMove piece board"; cases "addPieceToBoard board piece")
         (simp_all add: returnR_def)
    with Inr res \<open>generateNewPiece shapes t = Inr piece0\<close> show ?thesis
      by (simp add: simulatePlacement_def)
  qed
qed

lemma simulatePlacement_diverges:
  assumes "\<not> hasOccupied \<lparr>kind = t, shape = shapes t, pos_x = x, pos_y = 0, rotation = rot\<rparr>"
    "shapes t \<noteq> []"
  shows "simulatePlacement shapes t board x rot = None"
proof -
  obtain piece0 where p0: "generateNewPiece shapes t = Inr piece0" "shape piece0 = shapes t"
    using assms(2) by (cases "shapes t") (simp_all add: generateNewPiece_def)
  let ?p = "piece0\<lparr>rotation := rot, pos_x := x, pos_y := 0\<rparr>"
  have "\<not> hasOccupied ?p" using assms(1) by (simp add: hasOccupied_def p0(2))
  then have "descend ?p board = None" by (rule descend_diverges)
  then show ?thesis using p0(1) by (simp add: simulatePlacement_def)
qed

text \<open>
  C9: a piece whose rotated shape has an occupied cell is invalid once its anchor row is
  \<open>BOARD_HEIGHT\<close> or more, and the three descent loops (ghost projection, hard drop, simulated
  placement) return on every board; a piece with no occupied cell is valid at every position
  and the three loops do not return. The piece of a simulated placement is the one that
  \<open>simulatePlacement\<close> builds from the shape table, the anchor column and the rotation.
\<close>

theorem descent_loops_terminate:
  "(hasOccupied piece \<longrightarrow>
      (int BOARD_HEIGHT \<le> pos_y piece \<longrightarrow> isValidMove piece board = Inr False) \<and>
      getGhostPiecePosition piece board \<noteq> None \<and>
      hardDropLoop piece board newY dropDistance \<noteq> None) \<and>
   (hasOccupied \<lparr>kind = t, shape = shapes t, pos_x = x, pos_y = 0, rotation = rot\<rparr> \<longrightarrow>
      simulatePlacement shapes t board x rot \<noteq> None) \<and>
   (\<not> hasOccupied piece \<longrightarrow>
      isValidMove piece board = Inr True \<and>
      getGhostPiecePosition piece board = None \<and>
      hardDropLoop piece board newY dropDistance = None) \<and>
   (\<not> hasOccupied \<lparr>kind = t, shape = shapes t, pos_x = x, pos_y = 0, rotation = rot\<rparr> \<and>
    shapes t \<noteq> [] \<longrightarrow>
      simulatePlacement shapes t board x rot = None)"
proof (intro conjI impI)
  assume occ: "hasOccupied piece"
  show "isValidMove piece board = Inr False" if "int BOARD_HEIGHT \<le> pos_y piece"
    using isValidMove_below [OF that, of board] occ by simp
  show "getGhostPiecePosition piece board \<noteq> None"
    using descend_returns [OF occ, of board] by (auto simp: getGhostPiecePosition_def)
  show "hardDropLoop piece board newY dropDistance \<noteq> None"
    using hardDropLoop_returns [OF occ, of board newY dropDistance] by auto
next
  assume "hasOccupied \<lparr>kind = t, shape = shapes t, pos_x = x, pos_y = 0, rotation = rot\<rparr>"
  then show "simulatePlacement shapes t board x rot \<noteq> None"
    by (rule simulatePlacement_returns)
next
  assume no: "\<not> hasOccupied piece"
  show "isValidMove piece board = Inr True" by (rule isValidMove_empty [OF no])
  show "getGhostPiecePosition piece board = None"
    by (simp add: getGhostPiecePosition_def descend_diverges [OF no])
  show "hardDropLoop piece board newY dropDistance = None"
    by (rule hardDropLoop_diverges [OF no])
next
  assume "\<not> hasOccupied \<lparr>kind = t, shape = shapes t, pos_x = x, pos_y = 0, rotation = rot\<rparr> \<and>
          shapes t \<noteq> []"
  then show "simulatePlacement shapes t board x rot = None"
    by (intro simulatePlacement_diverges) simp_all
qed

theorem descent_loops_terminate_witness:
  "hasOccupied (examplePiece TT 3 0 1) \<and>
   getGhostPiecePosition (examplePiece TT 3 0 1) createEmptyBoard \<noteq> None \<and>
   hardDropLoop (examplePiece TT 3 0 1) createEmptyBoard 0 0 \<noteq> None \<and>
   simulatePlacement exampleShapes TT createEmptyBoard 3 1 \<noteq> None \<and>
   \<not> hasOccupied blankPiece \<and>
   isValidMove blankPiece createEmptyBoard = Inr True \<and>
   getGhostPiecePosition blankPiece createEmptyBoard = None \<and>
   hardDropLoop blankPiece createEmptyBoard 0 0 = None \<and>
   simulatePlacement (\<lambda>k. [[0, 0], [0, 0]]) TO createEmptyBoard 4 0 = None"
proof -
  have occ: "hasOccupied (examplePiece TT 3 0 1)" by code_simp
  have occ': "hasOccupied \<lparr>kind = TT, shape = exampleShapes TT, pos_x = 3, pos_y = 0, rotation = 1\<rparr>"
    using occ by (simp add: examplePiece_def)
  have no: "\<not> hasOccupied blankPiece" by code_simp
  have no': "\<not> hasOccupied \<lparr>kind = TO, shape = [[0, 0], [0, 0]], pos_x = 4, pos_y = 0, rotation = 0\<rparr>"
    using no by (simp add: blankPiece_def)
  note a = descent_loops_terminate [of "examplePiece TT 3 0 1" createEmptyBoard 0 0 TT
      exampleShapes 3 1]
  note b = descent_loops_terminate [of blankPiece createEmptyBoard 0 0 TO
      "\<lambda>k. [[0, 0], [0, 0]]" 4 0]
  show ?thesis
    using occ occ' no no' a b by simp
qed

lemma derefPiece_update:
  "a = o_position ghost \<Longrightarrow> a < length st \<Longrightarrow>
   derefPiece (st[a := (fst (st ! a), snd (st ! a) + 1)]) ghost =
   (derefPiece st ghost)\<lparr>pos_y := pos_y (derefPiece st ghost) + 1\<rparr>"
  by (simp add: derefPiece_def)

lemma ghostLoop_heap_sim:
  assumes "o_position ghost < length st" "hasOccupied (derefPiece st ghost)"
  shows "ghostLoop_heap ghost board st =
         bindR (descend (derefPiece st ghost) board)
           (\<lambda>g. returnR (st[o_position ghost := (pos_x g, pos_y g)]))"
  using assms
proof (induction "nat (int BOARD_HEIGHT - pos_y (derefPiece st ghost))" arbitrary: st
    rule: less_induct)
  case less
  let ?a = "o_position ghost"
  let ?p = "derefPiece st ghost"
  let ?next = "?p\<lparr>pos_y := pos_y ?p + 1\<rparr>"
  let ?st' = "st[?a := (fst (st ! ?a), snd (st ! ?a) + 1)]"
  have pa: "st ! ?a = (pos_x ?p, pos_y ?p)" by (simp add: derefPiece_def)
  show ?case
  proof (cases "isValidMove ?next board")
    case (Inl e)
    then show ?thesis
      by (subst ghostLoop_heap.simps, subst descend.simps) simp
  next
    case (Inr ok)
    show ?thesis
    proof (cases ok)
      case False
      have "st[?a := (pos_x ?p, pos_y ?p)] = st" using pa by (metis list_update_id)
      then show ?thesis
        using Inr False by (subst ghostLoop_heap.simps, subst descend.simps) (simp add: returnR_def)
    next
      case True
      have d: "derefPiece ?st' ghost = ?next"
        using less.prems(1) by (simp add: derefPiece_update)
      have "pos_y ?next < int BOARD_HEIGHT"
      proof (rule ccontr)
        assume "\<not> pos_y ?next < int BOARD_HEIGHT"
        then have "isValidMove ?next board = Inr (\<not> hasOccupied ?next)"
          by (intro isValidMove_below) simp
        with Inr True less.prems(2) show False by simp
      qed
      then have m: "nat (int BOARD_HEIGHT - pos_y (derefPiece ?st' ghost))
                    < nat (int BOARD_HEIGHT - pos_y ?p)"
        unfolding d by simp
      have "ghostLoop_heap ghost board ?st' =
            bindR (descend (derefPiece ?st' ghost) board)
              (\<lambda>g. returnR (?st'[?a := (pos_x g, pos_y g)]))"
        using less.hyps [OF m] less.prems by (simp add: d)
      then have "ghostLoop_heap ghost board ?st' =
            bindR (descend ?next board) (\<lambda>g. returnR (st[?a := (pos_x g, pos_y g)]))"
        by (simp add: d)
      then show ?thesis
        using Inr True by (subst ghostLoop_heap.simps, subst descend.simps) simp
    qed
  qed
qed

lemma getGhostPiecePosition_heap_sim:
  assumes "o_position piece < length st" "hasOccupied (derefPiece st piece)"
  shows "getGhostPiecePosition_heap piece board st =
         bindR (getGhostPiecePosition (derefPiece st piece) board)
           (\<lambda>g. returnR (piece\<lparr>o_position := length st\<rparr>, st @ [(pos_x g, pos_y g)]))"
proof -
  let ?ghost = "piece\<lparr>o_position := length st\<rparr>"
  let ?st1 = "st @ [st ! o_position piece]"
  have d: "derefPiece ?st1 ?ghost = derefPiece st piece"
    using assms(1) by (simp add: derefPiece_def)
  have "ghostLoop_heap ?ghost board ?st1 =
         bindR (descend (derefPiece ?st1 ?ghost) board)
           (\<lambda>g. returnR (?st1[o_position ?ghost := (pos_x g, pos_y g)]))"
    by (rule ghostLoop_heap_sim) (simp_all add: d assms(2))
  then have "ghostLoop_heap ?ghost board ?st1 =
         bindR (descend (derefPiece st piece) board) (\<lambda>g. returnR (st @ [(pos_x g, pos_y g)]))"
    by (simp add: d)
  then show ?thesis
    by (cases "descend (derefPiece st piece) board")
       (auto simp: getGhostPiecePosition_heap_def getGhostPiecePosition_def Let_def bindR_def
          returnR_def split: sum.splits)
qed

text \<open>
  C7: for a piece that is a valid placement on a board of \<open>BOARD_HEIGHT\<close> rows of
  \<open>BOARD_WIDTH\<close> cells, \<open>getGhostPiecePosition\<close> returns the piece with only its row changed;
  the piece is a valid placement at every row from its own down to the returned one, and
  one row further down it is not. On the heap the ghost is the piece object with a new
  position object, and every position object that existed before the call, the piece's
  among them, is as it was.

  A piece is a record that \<open>generateNewPiece\<close> built from an entry of \<^verbatim>\<open>TETROMINO_SHAPES\<close> and
  that was moved and rotated since, which changes the position and the rotation only; its
  rotated shape has an occupied cell (\<open>hasOccupied\<close>), as the board has \<open>BOARD_HEIGHT\<close> rows
  of \<open>BOARD_WIDTH\<close> cells.
\<close>

theorem getGhostPiecePosition_spec:
  assumes "wf_board board" "isValidMove piece board = Inr True" "hasOccupied piece"
  shows "\<exists>ghost. getGhostPiecePosition piece board = Some (Inr ghost) \<and>
           ghost = piece\<lparr>pos_y := pos_y ghost\<rparr> \<and>
           kind ghost = kind piece \<and> shape ghost = shape piece \<and>
           rotation ghost = rotation piece \<and> pos_x ghost = pos_x piece \<and>
           pos_y piece \<le> pos_y ghost \<and>
           (\<forall>y. pos_y piece \<le> y \<and> y \<le> pos_y ghost \<longrightarrow>
                 isValidMove (piece\<lparr>pos_y := y\<rparr>) board = Inr True) \<and>
           isValidMove (ghost\<lparr>pos_y := pos_y ghost + 1\<rparr>) board = Inr False \<and>
           (\<forall>st obj. o_position obj < length st \<and> derefPiece st obj = piece \<longrightarrow>
              getGhostPiecePosition_heap obj board st =
                Some (Inr (obj\<lparr>o_position := length st\<rparr>, st @ [(pos_x ghost, pos_y ghost)])))"
proof -
  from descend_wf [OF assms(1,3)] obtain y' where
    y': "pos_y piece \<le> y'" "descend piece board = Some (Inr (piece\<lparr>pos_y := y'\<rparr>))"
      "\<forall>y. pos_y piece < y \<and> y \<le> y' \<longrightarrow> validPlacement (piece\<lparr>pos_y := y\<rparr>) board"
      "\<not> validPlacement (piece\<lparr>pos_y := y' + 1\<rparr>) board"
    by blast
  have v0: "validPlacement piece board"
    using assms(2) isValidMove_wf [OF assms(1), of piece] by simp
  have range: "\<forall>y. pos_y piece \<le> y \<and> y \<le> y' \<longrightarrow>
                 isValidMove (piece\<lparr>pos_y := y\<rparr>) board = Inr True"
  proof (intro allI impI)
    fix y assume y: "pos_y piece \<le> y \<and> y \<le> y'"
    have "validPlacement (piece\<lparr>pos_y := y\<rparr>) board"
    proof (cases "y = pos_y piece")
      case True
      then show ?thesis using v0 by simp
    next
      case False
      then show ?thesis using y y'(3) by simp
    qed
    then show "isValidMove (piece\<lparr>pos_y := y\<rparr>) board = Inr True"
      by (simp add: isValidMove_wf [OF assms(1)])
  qed
  have stop: "isValidMove (piece\<lparr>pos_y := y' + 1\<rparr>) board = Inr False"
    using y'(4) by (simp add: isValidMove_wf [OF assms(1)])
  have g: "getGhostPiecePosition piece board = Some (Inr (piece\<lparr>pos_y := y'\<rparr>))"
    using y'(2) by (simp add: getGhostPiecePosition_def)
  have heap: "\<forall>st obj. o_position obj < length st \<and> derefPiece st obj = piece \<longrightarrow>
              getGhostPiecePosition_heap obj board st =
                Some (Inr (obj\<lparr>o_position := length st\<rparr>, st @ [(pos_x piece, y')]))"
  proof (intro allI impI)
    fix st obj assume h: "o_position obj < length st \<and> derefPiece st obj = piece"
    then have "hasOccupied (derefPiece st obj)" using assms(3) by simp
    from getGhostPiecePosition_heap_sim [OF _ this, of board] h g
    show "getGhostPiecePosition_heap obj board st =
                Some (Inr (obj\<lparr>o_position := length st\<rparr>, st @ [(pos_x piece, y')]))"
      by (simp add: returnR_def)
  qed
  show ?thesis
    using y'(1) g range stop heap
    by (intro exI [of _ "piece\<lparr>pos_y := y'\<rparr>"]) simp
qed

theorem getGhostPiecePosition_spec_witness:
  "wf_board createEmptyBoard \<and>
   isValidMove (examplePiece TT 3 0 1) createEmptyBoard = Inr True \<and>
   hasOccupied (examplePiece TT 3 0 1) \<and>
   getGhostPiecePosition (examplePiece TT 3 0 1) createEmptyBoard =
     Some (Inr (examplePiece TT 3 17 1)) \<and>
   getGhostPiecePosition_heap
     \<lparr>o_kind = TT, o_shape = exampleShapes TT, o_position = 0, o_rotation = 1\<rparr>
     createEmptyBoard [(3, 0)] =
     Some (Inr (\<lparr>o_kind = TT, o_shape = exampleShapes TT, o_position = 1, o_rotation = 1\<rparr>,
                [(3, 0), (3, 17)]))"
proof -
  have wf: "wf_board createEmptyBoard" by code_simp
  have v: "isValidMove (examplePiece TT 3 0 1) createEmptyBoard = Inr True" by code_simp
  have occ: "hasOccupied (examplePiece TT 3 0 1)" by code_simp
  have g: "getGhostPiecePosition (examplePiece TT 3 0 1) createEmptyBoard =
     Some (Inr (examplePiece TT 3 17 1))" by code_simp
  have h: "getGhostPiecePosition_heap
     \<lparr>o_kind = TT, o_shape = exampleShapes TT, o_position = 0, o_rotation = 1\<rparr>
     createEmptyBoard [(3, 0)] =
     Some (Inr (\<lparr>o_kind = TT, o_shape = exampleShapes TT, o_position = 1, o_rotation = 1\<rparr>,
                [(3, 0), (3, 17)]))" by code_simp
  show ?thesis
    using wf v occ g h getGhostPiecePosition_spec [OF wf v occ] by simp
qed

section \<open>Properties of the rotation\<close>

lemma tryKicks_wf:
  assumes "wf_board board"
  shows "tryKicks rotatedPiece board kicks =
         Inr (map_option (applyKick rotatedPiece)
               (find (\<lambda>k. validPlacement (applyKick rotatedPiece k) board) kicks))"
  by (induction kicks) (simp_all add: isValidMove_wf [OF assms])

lemma find_first_index:
  assumes "i < length xs" "P (xs ! i)" "\<forall>j<i. \<not> P (xs ! j)"
  shows "find P xs = Some (xs ! i)"
  using assms
proof (induction xs arbitrary: i)
  case Nil
  then show ?case by simp
next
  case (Cons a xs)
  show ?case
  proof (cases i)
    case 0
    then show ?thesis using Cons.prems by simp
  next
    case (Suc k)
    have "\<not> P a" using Cons.prems(3) Suc by auto
    moreover have "find P xs = Some (xs ! k)"
      using Cons.prems Suc by (intro Cons.IH) auto
    ultimately show ?thesis using Suc by simp
  qed
qed

lemma find_none_all: "(\<forall>x\<in>set xs. \<not> P x) \<Longrightarrow> find P xs = None"
  by (simp add: find_None_iff)

lemma list_ex_nth2:
  "list_ex (list_ex P) m \<longleftrightarrow> (\<exists>r<length m. \<exists>c<length (m ! r). P (m ! r ! c))"
  by (auto simp: list_ex_length)

lemma square_rows: "square m \<Longrightarrow> r < length m \<Longrightarrow> length (m ! r) = length m"
  by (simp add: square_def list_all_length)

lemma occupied_rotateMatrix:
  assumes "square m"
  shows "list_ex (list_ex (\<lambda>c. c \<noteq> 0)) (rotateMatrix m) \<longleftrightarrow> list_ex (list_ex (\<lambda>c. c \<noteq> 0)) m"
proof
  assume "list_ex (list_ex (\<lambda>c. c \<noteq> 0)) (rotateMatrix m)"
  then obtain r c where rc: "r < length m" "c < length m" "rotateMatrix m ! r ! c \<noteq> 0"
    by (auto simp: list_ex_nth2 length_rotateMatrix_row)
  then have "m ! (length m - 1 - c) ! r \<noteq> 0"
    using rotateMatrix_nth_square [OF assms rc(1,2)] by simp
  moreover have "length m - 1 - c < length m" using rc by simp
  ultimately show "list_ex (list_ex (\<lambda>c. c \<noteq> 0)) m"
    unfolding list_ex_nth2 using rc(1) square_rows [OF assms] by metis
next
  assume "list_ex (list_ex (\<lambda>c. c \<noteq> 0)) m"
  then obtain i j where ij: "i < length m" "j < length m" "m ! i ! j \<noteq> 0"
    by (auto simp: list_ex_nth2 square_rows [OF assms])
  have c: "length m - 1 - i < length m" using ij by simp
  have "rotateMatrix m ! j ! (length m - 1 - i) = m ! i ! j"
    using rotateMatrix_nth_square [OF assms ij(2) c] ij(1) by simp
  then have "rotateMatrix m ! j ! (length m - 1 - i) \<noteq> 0" using ij by simp
  moreover have "length (rotateMatrix m ! j) = length m"
    using ij(2) by (rule length_rotateMatrix_row)
  ultimately show "list_ex (list_ex (\<lambda>c. c \<noteq> 0)) (rotateMatrix m)"
    unfolding list_ex_nth2 length_rotateMatrix using ij(2) c by metis
qed

lemma square_funpow: "square m \<Longrightarrow> square ((rotateMatrix ^^ n) m)"
  by (induction n) (simp_all add: square_rotateMatrix)

lemma occupied_funpow:
  "square m \<Longrightarrow> list_ex (list_ex (\<lambda>c. c \<noteq> 0)) ((rotateMatrix ^^ n) m) \<longleftrightarrow>
                list_ex (list_ex (\<lambda>c. c \<noteq> 0)) m"
  by (induction n) (simp_all add: occupied_rotateMatrix square_funpow)

lemma hasOccupied_square:
  "square (shape piece) \<Longrightarrow> hasOccupied piece \<longleftrightarrow> list_ex (list_ex (\<lambda>c. c \<noteq> 0)) (shape piece)"
  by (simp add: hasOccupied_def getRotatedShape_def occupied_funpow)

lemma hasOccupied_applyKick [simp]: "hasOccupied (applyKick p k) = hasOccupied p"
  by (simp add: applyKick_def)

text \<open>
  C3 (amended): with a current piece, on a board of \<open>BOARD_HEIGHT\<close> rows of \<open>BOARD_WIDTH\<close>
  cells. In a phase other than PLAYING \<open>rotatePiece\<close> leaves the state as it is. In the phase
  PLAYING it builds the piece with rotation \<open>(current + 1) mod 4\<close> and walks the offsets
  that \<open>getWallKicks\<close> gives for the current rotation in table order. When no offset gives
  a valid placement the state stays as it is. Otherwise the piece moved by the first offset
  that gives a valid placement becomes the current piece, and the ghost piece is its
  projection; the call returns when the rotated shape has an occupied cell.
\<close>

theorem rotatePiece_spec:
  fixes s :: Session and cur :: Tetromino
  defines "rotated \<equiv> cur\<lparr>rotation := (rotation cur + 1) mod 4\<rparr>"
    and "kicks \<equiv> getWallKicks cur (rotation cur)"
  assumes "wf_board (s_board s)" "s_currentPiece s = Some cur"
  shows "(s_gameState s \<noteq> PLAYING \<longrightarrow> rotatePiece s = Some (Inr s)) \<and>
         (s_gameState s = PLAYING \<longrightarrow>
           ((\<forall>k\<in>set kicks. isValidMove (applyKick rotated k) (s_board s) \<noteq> Inr True) \<longrightarrow>
              rotatePiece s = Some (Inr s)) \<and>
           (\<forall>i<length kicks.
              isValidMove (applyKick rotated (kicks ! i)) (s_board s) = Inr True \<and>
              (\<forall>j<i. isValidMove (applyKick rotated (kicks ! j)) (s_board s) \<noteq> Inr True) \<longrightarrow>
              rotatePiece s =
                bindR (getGhostPiecePosition (applyKick rotated (kicks ! i)) (s_board s))
                  (\<lambda>ghost. returnR (s\<lparr>s_currentPiece := Some (applyKick rotated (kicks ! i)),
                                       s_ghostPiece := Some ghost\<rparr>)) \<and>
              (hasOccupied rotated \<longrightarrow>
                 (\<exists>ghost. rotatePiece s =
                     Some (Inr (s\<lparr>s_currentPiece := Some (applyKick rotated (kicks ! i)),
                                  s_ghostPiece := Some ghost\<rparr>))))))"
proof -
  let ?b = "s_board s"
  let ?P = "\<lambda>k. validPlacement (applyKick rotated k) ?b"
  have v: "isValidMove p ?b = Inr True \<longleftrightarrow> validPlacement p ?b" for p
    by (simp add: isValidMove_wf [OF assms(3)])
  have r: "rotatePiece s =
      (case find ?P kicks of
         None \<Rightarrow> returnR s
       | Some k \<Rightarrow> updateGhostPiece (applyKick rotated k) (s\<lparr>s_currentPiece := Some (applyKick rotated k)\<rparr>))"
    if "s_gameState s = PLAYING"
    using assms(4) that
    by (simp add: rotatePiece_def Let_def tryKicks_wf [OF assms(3)] rotated_def kicks_def
        split: option.splits)
  show ?thesis
  proof (intro conjI impI allI)
    assume "s_gameState s \<noteq> PLAYING"
    then show "rotatePiece s = Some (Inr s)"
      using assms(4) by (simp add: rotatePiece_def returnR_def)
  next
    assume playing: "s_gameState s = PLAYING"
    assume "\<forall>k\<in>set kicks. isValidMove (applyKick rotated k) ?b \<noteq> Inr True"
    then have "find ?P kicks = None" by (simp add: find_None_iff v)
    then show "rotatePiece s = Some (Inr s)" by (simp add: r [OF playing] returnR_def)
  next
    fix i
    assume playing: "s_gameState s = PLAYING"
      and i: "i < length kicks"
      and h: "isValidMove (applyKick rotated (kicks ! i)) ?b = Inr True \<and>
              (\<forall>j<i. isValidMove (applyKick rotated (kicks ! j)) ?b \<noteq> Inr True)"
    have f: "find ?P kicks = Some (kicks ! i)"
      using i h by (intro find_first_index) (simp_all add: v)
    show eq: "rotatePiece s =
              bindR (getGhostPiecePosition (applyKick rotated (kicks ! i)) ?b)
                (\<lambda>ghost. returnR (s\<lparr>s_currentPiece := Some (applyKick rotated (kicks ! i)),
                                     s_ghostPiece := Some ghost\<rparr>))"
      by (simp add: r [OF playing] f updateGhostPiece_def)
    show "\<exists>ghost. rotatePiece s =
             Some (Inr (s\<lparr>s_currentPiece := Some (applyKick rotated (kicks ! i)),
                          s_ghostPiece := Some ghost\<rparr>))"
      if occ: "hasOccupied rotated"
    proof -
      have "hasOccupied (applyKick rotated (kicks ! i))" using occ by simp
      from descend_wf [OF assms(3) this] obtain y' where
        "descend (applyKick rotated (kicks ! i)) ?b =
           Some (Inr ((applyKick rotated (kicks ! i))\<lparr>pos_y := y'\<rparr>))"
        by blast
      then show ?thesis
        by (auto simp: eq getGhostPiecePosition_def returnR_def)
    qed
  qed
qed

theorem rotatePiece_spec_witness:
  "wf_board createEmptyBoard \<and>
   rotatePiece wallSession =
     Some (Inr (wallSession\<lparr>s_currentPiece := Some (examplePiece TT 0 5 2),
                             s_ghostPiece := Some (examplePiece TT 0 17 2)\<rparr>)) \<and>
   wf_board tightBoard \<and>
   isValidMove (examplePiece TT 3 5 0) tightBoard = Inr True \<and>
   rotatePiece tightSession = Some (Inr tightSession) \<and>
   s_gameState pausedSession = PAUSED \<and>
   rotatePiece pausedSession = Some (Inr pausedSession)"
proof -
  have wf1: "wf_board (s_board wallSession)" by code_simp
  have c1: "s_currentPiece wallSession = Some (examplePiece TT (- 1) 5 1)"
    by (simp add: wallSession_def)
  have wf2: "wf_board (s_board tightSession)" by code_simp
  have c2: "s_currentPiece tightSession = Some (examplePiece TT 3 5 0)"
    by (simp add: tightSession_def)
  have wf3: "wf_board (s_board pausedSession)" by code_simp
  have c3: "s_currentPiece pausedSession = Some (examplePiece TT 3 5 0)"
    by (simp add: pausedSession_def)
  have r1: "rotatePiece wallSession =
     Some (Inr (wallSession\<lparr>s_currentPiece := Some (examplePiece TT 0 5 2),
                             s_ghostPiece := Some (examplePiece TT 0 17 2)\<rparr>))"
    by code_simp
  have v: "isValidMove (examplePiece TT 3 5 0) tightBoard = Inr True" by code_simp
  have r2: "rotatePiece tightSession = Some (Inr tightSession)" by code_simp
  have g3: "s_gameState pausedSession = PAUSED" by (simp add: pausedSession_def)
  have r3: "rotatePiece pausedSession = Some (Inr pausedSession)" by code_simp
  show ?thesis
    using wf1 wf2 r1 v r2 g3 r3 rotatePiece_spec [OF wf1 c1] rotatePiece_spec [OF wf2 c2]
      rotatePiece_spec [OF wf3 c3]
    by (simp add: wallSession_def tightSession_def)
qed

text \<open>
  C3 as stated, for every active piece, fails: the rotate key stays bound while the game is
  paused, and in the phase PAUSED \<open>rotatePiece\<close> returns at once. The first offset of the
  table gives a valid placement here, and the piece keeps its rotation.
\<close>

theorem rotatePiece_paused:
  "s_currentPiece pausedSession = Some (examplePiece TT 3 5 0) \<and>
   s_gameState pausedSession = PAUSED \<and>
   wf_board (s_board pausedSession) \<and>
   getWallKicks (examplePiece TT 3 5 0) 0 ! 0 = (0, 0) \<and>
   isValidMove (applyKick (examplePiece TT 3 5 1) (0, 0)) (s_board pausedSession) = Inr True \<and>
   rotatePiece pausedSession = Some (Inr pausedSession)"
  by code_simp

section \<open>Properties of the bag\<close>

lemma random_index:
  assumes "0 \<le> r" "r < 1"
  shows "nat \<lfloor>r * real (Suc i)\<rfloor> \<le> i"
proof -
  have "r * real (Suc i) < real (Suc i)" using assms by simp
  then have "\<lfloor>r * real (Suc i)\<rfloor> < int (Suc i)" by (simp add: floor_less_iff)
  then show ?thesis by simp
qed

lemma shuffleFrom_mset:
  assumes "\<forall>k. 0 \<le> rnd k \<and> rnd k < 1" "i < length bag"
  shows "mset (fst (shuffleFrom rnd n i bag)) = mset bag"
  using assms(2)
proof (induction i arbitrary: n bag)
  case 0
  then show ?case by simp
next
  case (Suc i)
  let ?j = "nat \<lfloor>rnd n * real (Suc i + 1)\<rfloor>"
  have j: "?j \<le> Suc i" using random_index [of "rnd n" "Suc i"] assms(1) by simp
  have "mset (bag[Suc i := bag ! ?j, ?j := bag ! Suc i]) = mset bag"
    using j Suc.prems by (intro mset_swap) simp_all
  moreover have "i < length (bag[Suc i := bag ! ?j, ?j := bag ! Suc i])"
    using Suc.prems by simp
  ultimately show ?case using Suc.IH by (simp add: Let_def)
qed

lemma length_shuffleFrom: "length (fst (shuffleFrom rnd n i bag)) = length bag"
  by (induction i arbitrary: n bag) (simp_all add: Let_def)

lemma length_generateBag: "length (fst (generateBag rnd n)) = 7"
  unfolding generateBag_def length_shuffleFrom by (simp add: TETROMINO_TYPES_def)

lemma generateBag_mset:
  "\<forall>k. 0 \<le> rnd k \<and> rnd k < 1 \<Longrightarrow> mset (fst (generateBag rnd n)) = mset TETROMINO_TYPES"
  unfolding generateBag_def by (rule shuffleFrom_mset) (simp_all add: TETROMINO_TYPES_def)

lemma count_TETROMINO_TYPES: "count (mset TETROMINO_TYPES) t = 1"
  by (cases t) (simp_all add: TETROMINO_TYPES_def)

lemma perm_facts:
  assumes "mset b = mset TETROMINO_TYPES"
  shows "length b = 7" "count_list b t = 1" "distinct b" "set b = UNIV"
proof -
  show "length b = 7" using mset_eq_length [OF assms] by (simp add: TETROMINO_TYPES_def)
  have c: "count (mset b) t = 1" for t by (simp add: assms count_TETROMINO_TYPES)
  have cl: "count_list b u = 1" for u using c [of u] by (simp add: count_mset)
  show "count_list b t = 1" by (rule cl)
  have mem: "u \<in> set b" for u
  proof (rule ccontr)
    assume "u \<notin> set b"
    then have "count_list b u = 0" by simp
    then show False using cl [of u] by simp
  qed
  then show "set b = UNIV" by blast
  show "distinct b" using c mem by (simp add: distinct_count_atmost_1)
qed

lemma wholeBags_append: "wholeBags ws \<Longrightarrow> wholeBags vs \<Longrightarrow> wholeBags (ws @ vs)"
  by (induction rule: wholeBags.induct) (auto intro: wholeBags.intros)

lemma wholeBags_single: "mset b = mset TETROMINO_TYPES \<Longrightarrow> wholeBags b"
  using wholeBags_App [OF _ wholeBags_Nil, of b] by simp

lemma wholeBags_split:
  assumes "wholeBags ws" "ws \<noteq> []"
  shows "\<exists>b rest. ws = b @ rest \<and> mset b = mset TETROMINO_TYPES \<and> wholeBags rest"
  using assms by (cases rule: wholeBags.cases) auto


lemma pushBag_facts:
  assumes "\<forall>k. 0 \<le> rnd k \<and> rnd k < 1"
  shows "\<exists>b. bagRef (pushBag rnd s) = bagRef s @ b \<and> mset b = mset TETROMINO_TYPES"
  by (simp add: pushBag_def generateBag_mset [OF assms])

lemma nextFromBag_cons:
  assumes "\<forall>k. 0 \<le> rnd k \<and> rnd k < 1" "bagRef s = t # cur @ ws" "wholeBags ws"
  shows "\<exists>ws'. fst (nextFromBag rnd preview s) = Some t \<and>
               bagRef (snd (nextFromBag rnd preview s)) = cur @ ws' \<and> wholeBags ws'"
proof (cases "length (cur @ ws) < preview + 1")
  case True
  let ?s2 = "s\<lparr>bagRef := cur @ ws\<rparr>"
  from pushBag_facts [OF assms(1), of ?s2] obtain b where
    b: "bagRef (pushBag rnd ?s2) = (cur @ ws) @ b" "mset b = mset TETROMINO_TYPES"
    by auto
  have "wholeBags (ws @ b)"
    by (rule wholeBags_append [OF assms(3) wholeBags_single [OF b(2)]])
  then show ?thesis
    using True assms(2) b(1) by (intro exI [of _ "ws @ b"]) (simp add: nextFromBag_def Let_def)
next
  case False
  then show ?thesis
    using assms(2,3) by (intro exI [of _ ws]) (simp add: nextFromBag_def Let_def)
qed

lemma draws_prefix:
  assumes "\<forall>k. 0 \<le> rnd k \<and> rnd k < 1"
  shows "bagRef s = cur @ ws \<Longrightarrow> wholeBags ws \<Longrightarrow> k \<le> length cur \<Longrightarrow>
         \<exists>ws'. fst (draws rnd preview k s) = map Some (take k cur) \<and>
               bagRef (snd (draws rnd preview k s)) = drop k cur @ ws' \<and> wholeBags ws'"
proof (induction k arbitrary: s cur ws)
  case 0
  then show ?case by (intro exI [of _ ws]) simp
next
  case (Suc k)
  then obtain t cur' where cur: "cur = t # cur'" by (cases cur) auto
  from nextFromBag_cons [OF assms, of s t cur' ws preview] Suc.prems cur obtain ws1 where
    n: "fst (nextFromBag rnd preview s) = Some t"
       "bagRef (snd (nextFromBag rnd preview s)) = cur' @ ws1" "wholeBags ws1"
    by auto
  from Suc.IH [OF n(2,3)] Suc.prems(3) cur obtain ws' where
    d: "fst (draws rnd preview k (snd (nextFromBag rnd preview s))) = map Some (take k cur')"
       "bagRef (snd (draws rnd preview k (snd (nextFromBag rnd preview s)))) = drop k cur' @ ws'"
       "wholeBags ws'"
    by auto
  show ?case
    using n(1) d cur
    by (intro exI [of _ ws']) (simp add: split_beta Let_def)
qed

lemma draws_empty_bag:
  "bagRef s = [] \<Longrightarrow> draws rnd preview (Suc k) s = draws rnd preview (Suc k) (pushBag rnd s)"
proof -
  assume e: "bagRef s = []"
  have "fst (generateBag rnd n) \<noteq> []" for n
    using length_generateBag [of rnd n] by auto
  then have "bagRef (pushBag rnd s) \<noteq> []" by (simp add: pushBag_def)
  then have "nextFromBag rnd preview s = nextFromBag rnd preview (pushBag rnd s)"
    using e by (simp add: nextFromBag_def Let_def)
  then show ?thesis by simp
qed

lemma draws_seven:
  assumes "\<forall>k. 0 \<le> rnd k \<and> rnd k < 1" "wholeBags (bagRef s)"
  shows "\<exists>b. fst (draws rnd preview 7 s) = map Some b \<and> mset b = mset TETROMINO_TYPES \<and>
             wholeBags (bagRef (snd (draws rnd preview 7 s)))"
proof -
  have main: "\<exists>b. fst (draws rnd preview 7 s') = map Some b \<and> mset b = mset TETROMINO_TYPES \<and>
             wholeBags (bagRef (snd (draws rnd preview 7 s')))"
    if w: "wholeBags (bagRef s')" and ne: "bagRef s' \<noteq> []" for s'
  proof -
    from wholeBags_split [OF w ne] obtain b rest where
      b: "bagRef s' = b @ rest" "mset b = mset TETROMINO_TYPES" "wholeBags rest"
      by auto
    have len: "length b = 7" by (rule perm_facts(1) [OF b(2)])
    from draws_prefix [OF assms(1) b(1) b(3), of 7 preview] len obtain ws' where
      "fst (draws rnd preview 7 s') = map Some (take 7 b)"
      "bagRef (snd (draws rnd preview 7 s')) = drop 7 b @ ws'" "wholeBags ws'"
      by auto
    then show ?thesis using len b(2) by (intro exI [of _ b]) simp
  qed
  show ?thesis
  proof (cases "bagRef s = []")
    case False
    then show ?thesis by (rule main [OF assms(2)])
  next
    case True
    from pushBag_facts [OF assms(1), of s] True obtain b where
      b: "bagRef (pushBag rnd s) = b" "mset b = mset TETROMINO_TYPES"
      by auto
    have "wholeBags (bagRef (pushBag rnd s))" using b wholeBags_single by simp
    moreover have "bagRef (pushBag rnd s) \<noteq> []" using b perm_facts(1) [OF b(2)] by auto
    ultimately have "\<exists>b. fst (draws rnd preview 7 (pushBag rnd s)) = map Some b \<and>
             mset b = mset TETROMINO_TYPES \<and>
             wholeBags (bagRef (snd (draws rnd preview 7 (pushBag rnd s))))"
      by (rule main)
    moreover have "draws rnd preview 7 s = draws rnd preview 7 (pushBag rnd s)"
      using draws_empty_bag [OF True, of rnd preview 6] by (simp add: numeral_eq_Suc)
    ultimately show ?thesis by simp
  qed
qed


text \<open>
  C6: with \<^verbatim>\<open>Math.random\<close> returning numbers \<open>0 \<le> r < 1\<close>, \<open>generateBag\<close> returns a list of
  length 7 in which every kind occurs exactly once. Without \<^verbatim>\<open>perfectPieceMode\<close>,
  \<open>getNextPiece\<close> draws from the queue of bags. The queue starts as one bag; whenever it is
  a sequence of whole bags, the next 7 draws hold every kind exactly once, and after them
  the queue is a sequence of whole bags again.
\<close>

theorem generateBag_fair:
  assumes "\<forall>k. 0 \<le> rnd k \<and> rnd k < 1" "wholeBags (bagRef s)"
  shows "length (fst (generateBag rnd n)) = 7 \<and>
         (\<forall>t. count_list (fst (generateBag rnd n)) t = 1) \<and>
         wholeBags (fst (generateBag rnd n)) \<and>
         getNextPiece shapes rnd preview False currentBoard s =
           Some (Inr (nextFromBag rnd preview s)) \<and>
         (\<exists>b. fst (draws rnd preview 7 s) = map Some b \<and> length b = 7 \<and>
              (\<forall>t. count_list b t = 1) \<and>
              wholeBags (bagRef (snd (draws rnd preview 7 s))))"
proof -
  note g = generateBag_mset [OF assms(1), of n]
  have gn: "getNextPiece shapes rnd preview False currentBoard s =
           Some (Inr (nextFromBag rnd preview s))"
    by (simp add: getNextPiece_def returnR_def)
  from draws_seven [OF assms, of preview] obtain b where
    b: "fst (draws rnd preview 7 s) = map Some b" "mset b = mset TETROMINO_TYPES"
       "wholeBags (bagRef (snd (draws rnd preview 7 s)))"
    by blast
  show ?thesis
    using perm_facts(1,2) [OF g] perm_facts(1,2) [OF b(2)] wholeBags_single [OF g] b(1,3) gn
    by blast
qed

lemma shuffleFrom_numeral:
  "shuffleFrom rnd n (numeral k) bag =
     (let j = nat \<lfloor>rnd n * real (numeral k + 1 :: nat)\<rfloor>
      in shuffleFrom rnd (n + 1) (pred_numeral k) (bag[numeral k := bag ! j, j := bag ! numeral k]))"
  by (simp add: numeral_eq_Suc Let_def)

lemma g1: "fst (generateBag (\<lambda>k. 1 / 2) 0) = [TI, TJ, TO, TZ, TT, TL, TS]"
  by (simp add: generateBag_def TETROMINO_TYPES_def shuffleFrom_numeral Let_def)

theorem generateBag_fair_witness:
  "(0 :: real) \<le> 1 / 2 \<and> (1 :: real) / 2 < 1 \<and>
   wholeBags (bagRef \<lparr>bagRef = [], nextPieces = [], randomCalls = 0\<rparr>) \<and>
   fst (generateBag (\<lambda>k. 1 / 2) 0) = [TI, TJ, TO, TZ, TT, TL, TS] \<and>
   length (fst (draws (\<lambda>k. 1 / 2) 3 7 \<lparr>bagRef = [], nextPieces = [], randomCalls = 0\<rparr>)) = 7 \<and>
   wholeBags (bagRef (snd (draws (\<lambda>k. 1 / 2) 3 7
                              \<lparr>bagRef = [], nextPieces = [], randomCalls = 0\<rparr>)))"
proof -
  have r: "\<forall>k :: nat. (0 :: real) \<le> 1 / 2 \<and> (1 :: real) / 2 < 1" by simp
  have w: "wholeBags (bagRef \<lparr>bagRef = [], nextPieces = [], randomCalls = 0\<rparr>)"
    by (simp add: wholeBags_Nil)
  from generateBag_fair [OF r w, of 0 exampleShapes 3 createEmptyBoard] obtain b where
    b: "fst (draws (\<lambda>k. 1 / 2) 3 7 \<lparr>bagRef = [], nextPieces = [], randomCalls = 0\<rparr>) = map Some b"
       "length b = 7"
       "wholeBags (bagRef (snd (draws (\<lambda>k. 1 / 2) 3 7
                                  \<lparr>bagRef = [], nextPieces = [], randomCalls = 0\<rparr>)))"
    by blast
  have l: "length (fst (draws (\<lambda>k. 1 / 2) 3 7 \<lparr>bagRef = [], nextPieces = [], randomCalls = 0\<rparr>)) = 7"
    by (simp only: b(1,2) length_map)
  show ?thesis
    by (intro conjI w g1 l b(3)) simp_all
qed

section \<open>Properties of the placement search\<close>

lemma foldE_Inr:
  "(\<And>v s. v \<in> set vs \<Longrightarrow> \<exists>s'. f v s = Inr s') \<Longrightarrow> \<exists>s'. foldE f vs s = Inr s'"
proof (induction vs arbitrary: s)
  case Nil
  then show ?case by simp
next
  case (Cons v vs)
  from Cons.prems [of v s] obtain s1 where "f v s = Inr s1" by auto
  moreover have "\<exists>s'. foldE f vs s1 = Inr s'" by (rule Cons.IH) (simp add: Cons.prems)
  ultimately show ?case by simp
qed

lemma findFirst_Inr:
  "(\<And>v. v \<in> set vs \<Longrightarrow> \<exists>b. p v = Inr b) \<Longrightarrow> \<exists>r. findFirst p vs = Inr r"
proof (induction vs)
  case Nil
  then show ?case by simp
next
  case (Cons v vs)
  from Cons.prems [of v] obtain b where "p v = Inr b" by auto
  moreover have "\<exists>r. findFirst p vs = Inr r" by (rule Cons.IH) (simp add: Cons.prems)
  ultimately show ?case by auto
qed

lemma notNullAt_rect:
  "rect board \<Longrightarrow> r < BOARD_HEIGHT \<Longrightarrow> \<exists>b. notNullAt board r c = Inr b"
  by (simp add: notNullAt_def readBoard_def rect_def)

lemma rowHasBlock_rect:
  "rect board \<Longrightarrow> r < BOARD_HEIGHT \<Longrightarrow> \<exists>b. rowHasBlock board r = Inr b"
  by (simp add: rowHasBlock_def rect_def)

lemma map_sum_Inr: "\<exists>s. m = Inr s \<Longrightarrow> \<exists>s'. map_sum f g m = Inr s'"
  by auto

lemma countHoles_rect:
  assumes "rect board"
  shows "\<exists>n. countHoles board = Inr n"
  unfolding countHoles_def
proof (rule foldE_Inr)
  fix c h
  have "\<exists>s'. foldE (\<lambda>r (foundBlock, holes').
              map_sum id
                (\<lambda>filled. if filled then (True, holes')
                           else if foundBlock then (foundBlock, holes' + 1)
                           else (foundBlock, holes'))
                (notNullAt board r c))
            [0..<BOARD_HEIGHT] (False, h) = Inr s'"
  proof (rule foldE_Inr)
    fix r s assume "r \<in> set [0..<BOARD_HEIGHT]"
    then obtain b where "notNullAt board r c = Inr b"
      using notNullAt_rect [OF assms, of r c] by auto
    then show "\<exists>s'. (case s of (foundBlock, holes') \<Rightarrow>
              map_sum id
                (\<lambda>filled. if filled then (True, holes')
                           else if foundBlock then (foundBlock, holes' + 1)
                           else (foundBlock, holes'))
                (notNullAt board r c)) = Inr s'"
      by (cases s) simp
  qed
  then show "\<exists>s'. map_sum id snd
          (foldE (\<lambda>r (foundBlock, holes').
              map_sum id
                (\<lambda>filled. if filled then (True, holes')
                           else if foundBlock then (foundBlock, holes' + 1)
                           else (foundBlock, holes'))
                (notNullAt board r c))
            [0..<BOARD_HEIGHT] (False, h)) = Inr s'"
    by (rule map_sum_Inr)
qed

lemma calculateBoardMetrics_rect:
  assumes "rect board"
  shows "\<exists>m. calculateBoardMetrics board = Inr m"
proof -
  obtain n where n: "countHoles board = Inr n" using countHoles_rect [OF assms] by auto
  have "\<exists>r. findFirst (rowHasBlock board) [0..<BOARD_HEIGHT] = Inr r"
    by (rule findFirst_Inr) (simp add: rowHasBlock_rect [OF assms])
  then obtain topRow where t: "findFirst (rowHasBlock board) [0..<BOARD_HEIGHT] = Inr topRow"
    by auto
  have "\<exists>hs. foldE (\<lambda>c columnHeights.
                    map_sum id (\<lambda>first. columnHeights @ [heightFrom first])
                      (findFirst (\<lambda>r. notNullAt board r c) [0..<BOARD_HEIGHT]))
                 [0..<BOARD_WIDTH] [] = Inr hs"
  proof (rule foldE_Inr)
    fix c :: nat and s :: "nat list"
    have "\<exists>r. findFirst (\<lambda>r. notNullAt board r c) [0..<BOARD_HEIGHT] = Inr r"
      by (rule findFirst_Inr) (simp add: notNullAt_rect [OF assms])
    then show "\<exists>s'. map_sum id (\<lambda>first. s @ [heightFrom first])
                      (findFirst (\<lambda>r. notNullAt board r c) [0..<BOARD_HEIGHT]) = Inr s'"
      by (rule map_sum_Inr)
  qed
  then obtain hs where h: "foldE (\<lambda>c columnHeights.
                    map_sum id (\<lambda>first. columnHeights @ [heightFrom first])
                      (findFirst (\<lambda>r. notNullAt board r c) [0..<BOARD_HEIGHT]))
                 [0..<BOARD_WIDTH] [] = Inr hs"
    by auto
  show ?thesis by (simp add: calculateBoardMetrics_def n t h)
qed

lemma scoreBoardState_rect:
  "rect resultBoard \<Longrightarrow> \<exists>sc. scoreBoardState currentBoard resultBoard l = Inr sc"
  unfolding scoreBoardState_def by (rule map_sum_Inr) (rule calculateBoardMetrics_rect)

lemma rect_alt: "rect board \<longleftrightarrow> length board = BOARD_HEIGHT \<and> list_all (\<lambda>row. length row = BOARD_WIDTH) board"
  by (auto simp: rect_def list_all_length)

lemma rect_clearLines: "rect board \<Longrightarrow> rect (fst (clearLines board))"
  by (auto simp: rect_alt clearLines_eq sum_length_filter_compl list_all_iff)


lemma shapeOk_hasOccupied:
  assumes "shapeOk (shapes t)"
  shows "hasOccupied \<lparr>kind = t, shape = shapes t, pos_x = x, pos_y = y0, rotation = rot\<rparr>"
  using assms by (simp add: shapeOk_def hasOccupied_def occupied_funpow)

lemma shapeOk_nonempty: "shapeOk m \<Longrightarrow> m \<noteq> []"
  by (auto simp: shapeOk_def)

lemma generateNewPiece_ok:
  assumes "shapes t \<noteq> []"
  shows "\<exists>px. generateNewPiece shapes t =
           Inr \<lparr>kind = t, shape = shapes t, pos_x = px, pos_y = 0, rotation = 0\<rparr>"
  using assms by (cases "shapes t") (simp_all add: generateNewPiece_def)

text \<open>One trial on a well-formed board: what it computes.\<close>

lemma tryPlacement_wf:
  assumes "wf_board board" "shapeOk (shapes t)"
  shows "\<exists>piece. descend \<lparr>kind = t, shape = shapes t, pos_x = x, pos_y = 0, rotation = rot\<rparr> board
                  = Some (Inr piece) \<and>
           (if validPlacement piece board
            then \<exists>nb sc. addPieceToBoard board piece = Inr nb \<and>
                   scoreBoardState board (fst (clearLines nb)) (snd (clearLines nb)) = Inr sc \<and>
                   tryPlacement shapes t board rot x = Some (Inr (Some (sc, snd (clearLines nb))))
            else tryPlacement shapes t board rot x = Some (Inr None))"
proof -
  let ?p0 = "\<lparr>kind = t, shape = shapes t, pos_x = x, pos_y = 0, rotation = rot\<rparr>"
  from generateNewPiece_ok [of shapes t, OF shapeOk_nonempty [OF assms(2)]] obtain px where
    g: "generateNewPiece shapes t =
          Inr \<lparr>kind = t, shape = shapes t, pos_x = px, pos_y = 0, rotation = 0\<rparr>"
    by auto
  have occ: "hasOccupied ?p0" by (rule shapeOk_hasOccupied [of shapes t, OF assms(2)])
  let ?at = "\<lambda>y'. \<lparr>kind = t, shape = shapes t, pos_x = x, pos_y = y', rotation = rot\<rparr>"
  from descend_wf [OF assms(1) occ] obtain y' where "descend ?p0 board = Some (Inr (?at y'))"
    by auto
  then obtain piece where d: "descend ?p0 board = Some (Inr piece)" and pc: "piece = ?at y'"
    by simp
  let ?piece = piece
  have v: "isValidMove ?piece board = Inr (validPlacement ?piece board)"
    by (rule isValidMove_wf [OF assms(1)])
  have t0: "tryPlacement shapes t board rot x =
      bindR (liftE (isValidMove ?piece board)) (\<lambda>ok.
       if \<not> ok then returnR None
       else bindR (liftE (addPieceToBoard board ?piece)) (\<lambda>boardWithPiece.
            bindR (liftE (scoreBoardState board (fst (clearLines boardWithPiece))
                            (snd (clearLines boardWithPiece)))) (\<lambda>sc.
            returnR (Some (sc, snd (clearLines boardWithPiece))))))"
    using d by (simp add: tryPlacement_def g)
  show ?thesis
  proof (cases "validPlacement ?piece board")
    case False
    then show ?thesis using d by (simp add: t0 v returnR_def)
  next
    case True
    from addPieceToBoard_ok [OF wf_board_rect [OF assms(1)] validPlacement_insideRightEdge [OF True]]
    obtain nb where nb: "addPieceToBoard board ?piece = Inr nb" "rect nb" by blast
    from scoreBoardState_rect [OF rect_clearLines [OF nb(2)], of board "snd (clearLines nb)"]
    obtain sc where
      sc: "scoreBoardState board (fst (clearLines nb)) (snd (clearLines nb)) = Inr sc"
      by auto
    have "tryPlacement shapes t board rot x = Some (Inr (Some (sc, snd (clearLines nb))))"
      using True by (simp add: t0 v nb(1) sc returnR_def)
    then show ?thesis using True d nb(1) sc by auto
  qed
qed

lemma tryPlacement_total:
  assumes "wf_board board" "shapeOk (shapes t)"
  shows "\<exists>out. tryPlacement shapes t board rot x = Some (Inr out)"
  using tryPlacement_wf [of board shapes t x rot, OF assms] by (auto split: if_splits)

lemma bestInv_step:
  assumes "bestInv out seen best"
  shows "bestInv out (insert p seen) (stepBest out p best)"
proof (cases "out (fst p) (snd p)")
  case None
  then show ?thesis using assms by (auto simp: bestInv_def stepBest_def)
next
  case (Some t)
  show ?thesis
  proof (cases best)
    case None
    then show ?thesis
      using assms Some by (cases p; cases t) (auto simp: bestInv_def stepBest_def betterPlacement_def)
  next
    case (Some b)
    then show ?thesis
      using assms \<open>out (fst p) (snd p) = Some t\<close>
      by (cases p; cases t) (fastforce simp: bestInv_def stepBest_def betterPlacement_def)
  qed
qed

lemma bestInv_None:
  "bestInv out S res \<Longrightarrow> (res = None \<longleftrightarrow> (\<forall>rot x. (rot, x) \<in> S \<longrightarrow> out rot x = None))"
  by (auto simp: bestInv_def)

lemma bestInv_Some:
  assumes "bestInv out S (Some b)"
  shows "(p_rotation b, p_x b) \<in> S \<and> out (p_rotation b) (p_x b) = Some (p_score b, p_linesCleared b) \<and>
         (\<forall>rot x sc l. (rot, x) \<in> S \<and> out rot x = Some (sc, l) \<longrightarrow> p_score b \<le> sc)"
proof (intro conjI allI impI)
  show "(p_rotation b, p_x b) \<in> S" using assms by (simp add: bestInv_def)
  show "out (p_rotation b) (p_x b) = Some (p_score b, p_linesCleared b)"
    using assms by (simp add: bestInv_def)
  fix rot x sc l assume h: "(rot, x) \<in> S \<and> out rot x = Some (sc, l)"
  have "\<forall>p\<in>S. \<forall>sc l. out (fst p) (snd p) = Some (sc, l) \<longrightarrow> p_score b \<le> sc"
    using assms by (simp add: bestInv_def)
  from this [rule_format, of "(rot, x)" sc l] h show "p_score b \<le> sc" by simp
qed

lemma bestInv_fold:
  "bestInv out seen best \<Longrightarrow> bestInv out (seen \<union> set ps) (fold (stepBest out) ps best)"
proof (induction ps arbitrary: seen best)
  case Nil
  then show ?case by simp
next
  case (Cons p ps)
  from Cons.IH [OF bestInv_step [OF Cons.prems, of p]] show ?case by simp
qed


lemma foldR_pure:
  "(\<And>v s. v \<in> set vs \<Longrightarrow> f v s = returnR (g v s)) \<Longrightarrow> foldR f vs s = returnR (fold g vs s)"
  by (induction vs arbitrary: s) simp_all

lemma fold_nested:
  "fold (\<lambda>a s. fold (\<lambda>b. h (a, b)) bs s) as s0 =
   fold h (concat (map (\<lambda>a. map (\<lambda>b. (a, b)) bs) as)) s0"
  by (induction as arbitrary: s0) (simp_all add: fold_map comp_def)

lemma findBestPlacement_fold:
  assumes "\<And>rot x. tryPlacement shapes t board rot x = Some (Inr (out rot x))"
  shows "findBestPlacement shapes t board =
         Some (Inr (fold (stepBest out)
                      (concat (map (\<lambda>rot. map (\<lambda>x. (rot, x)) [- 3..int BOARD_WIDTH + 2]) [0..<4]))
                      None))"
proof -
  have body: "bindR (tryPlacement shapes t board rot x)
                (\<lambda>trial. case trial of None \<Rightarrow> returnR best
                          | Some tr \<Rightarrow> returnR (betterPlacement best rot x tr)) =
              returnR (stepBest out (rot, x) best)" for rot x best
    by (simp add: assms stepBest_def split: option.splits)
  have inner: "foldR (\<lambda>x bestPlacement.
              bindR (tryPlacement shapes t board rot x) (\<lambda>trial.
                case trial of
                  None \<Rightarrow> returnR bestPlacement
                | Some tr \<Rightarrow> returnR (betterPlacement bestPlacement rot x tr)))
            xs best = returnR (fold (\<lambda>x. stepBest out (rot, x)) xs best)" for rot xs best
    by (rule foldR_pure) (rule body)
  have "findBestPlacement shapes t board =
        returnR (fold (\<lambda>rot best. fold (\<lambda>x. stepBest out (rot, x)) [- 3..int BOARD_WIDTH + 2] best)
                   [0..<4] None)"
    unfolding findBestPlacement_def by (rule foldR_pure) (rule inner)
  then show ?thesis by (simp add: fold_nested returnR_def)
qed

lemma set_trials:
  "set (concat (map (\<lambda>rot. map (\<lambda>x. (rot, x)) [- 3..int BOARD_WIDTH + 2]) [0..<4])) =
   {p. inSearchRange (fst p) (snd p)}"
  by (auto simp: inSearchRange_def)

text \<open>The binary64 arithmetic: the binades, and the error of one rounding.\<close>

lemma highBinade_bounds: "1 \<le> x \<Longrightarrow> highBinade x \<le> x \<and> x < 2 * highBinade x \<and> 0 < highBinade x"
proof (induction x rule: highBinade.induct)
  case (1 x)
  show ?case
  proof (cases "2 \<le> x")
    case True
    then show ?thesis using 1 by (subst (1 2 3) highBinade.simps) simp
  next
    case False
    then show ?thesis using 1 by (subst (1 2 3) highBinade.simps) simp
  qed
qed

lemma lowBinade_bounds: "0 < lowBinade n x \<and> lowBinade n x \<le> 1"
proof (induction n x rule: lowBinade.induct)
  case (1 n x)
  show ?case
  proof (cases "n = 0 \<or> \<not> x < 1")
    case True
    then show ?thesis by (subst (1 2) lowBinade.simps) auto
  next
    case False
    then have "0 < lowBinade (n - 1) (2 * x) \<and> lowBinade (n - 1) (2 * x) \<le> 1"
      using 1 by simp
    then show ?thesis using False by (subst (1 2) lowBinade.simps) simp
  qed
qed

lemma lowBinade_normal:
  "0 < x \<Longrightarrow> x < 1 \<Longrightarrow> 1 / 2 ^ n \<le> x \<Longrightarrow> lowBinade n x \<le> x \<and> x < 2 * lowBinade n x"
proof (induction n x rule: lowBinade.induct)
  case (1 n x)
  show ?case
  proof (cases "n = 0")
    case True
    then show ?thesis using 1(2-) by simp
  next
    case False
    then obtain m where m: "n = Suc m" by (cases n) auto
    have h: "1 / 2 ^ (n - 1) \<le> 2 * x" using 1(4) m by (simp add: field_simps)
    show ?thesis
    proof (cases "2 * x < 1")
      case True
      then have "lowBinade (n - 1) (2 * x) \<le> 2 * x \<and> 2 * x < 2 * lowBinade (n - 1) (2 * x)"
        using 1(1) [OF False 1(3)] 1(2) h by simp
      then show ?thesis using False 1(3) by (subst (1 2) lowBinade.simps) simp
    next
      case c: False
      have "lowBinade (n - 1) (2 * x) = 1" using c by (subst lowBinade.simps) simp
      then show ?thesis using False 1(3) c by (subst (1 2) lowBinade.simps) simp
    qed
  qed
qed

lemma lowBinade_subnormal:
  "0 \<le> x \<Longrightarrow> x < 1 / 2 ^ n \<Longrightarrow> lowBinade n x = 1 / 2 ^ n"
proof (induction n x rule: lowBinade.induct)
  case (1 n x)
  show ?case
  proof (cases "n = 0")
    case True
    then show ?thesis by (subst lowBinade.simps) simp
  next
    case False
    then obtain m where m: "n = Suc m" by (cases n) auto
    have p: "(1 :: real) / 2 ^ n \<le> 1" by (simp add: divide_le_eq_1)
    then have x1: "x < 1" using 1(3) by linarith
    have h: "2 * x < 1 / 2 ^ (n - 1)" using 1(3) m by (simp add: field_simps)
    have "lowBinade (n - 1) (2 * x) = 1 / 2 ^ (n - 1)"
      using 1(1) [OF False x1] 1(2) h by simp
    then show ?thesis using False x1 m by (subst lowBinade.simps) simp
  qed
qed

lemma roundHalfEven_err: "\<bar>of_int (roundHalfEven q) - q\<bar> \<le> 1 / 2"
  unfolding roundHalfEven_def Let_def by (auto; linarith)

lemma ulp_pos: "0 < ulp x"
  using highBinade_bounds [of "\<bar>x\<bar>"] lowBinade_bounds [of 1022 "\<bar>x\<bar>"] by (simp add: ulp_def)

lemma ulp_le:
  assumes "\<bar>x\<bar> \<le> 4096"
  shows "ulp x \<le> 1 / 2 ^ 40"
proof -
  have "(if 1 \<le> \<bar>x\<bar> then highBinade \<bar>x\<bar> else lowBinade 1022 \<bar>x\<bar>) \<le> 4096"
    using highBinade_bounds [of "\<bar>x\<bar>"] lowBinade_bounds [of 1022 "\<bar>x\<bar>"] assms by auto
  then have "ulp x \<le> 4096 / 2 ^ 52" unfolding ulp_def by (simp add: divide_right_mono)
  then show ?thesis by simp
qed

lemma double_err:
  assumes "\<bar>x\<bar> \<le> 4096"
  shows "\<bar>double x - x\<bar> \<le> 1 / 2 ^ 41"
proof (cases "x = 0")
  case True
  then show ?thesis by (simp add: double_def)
next
  case False
  let ?u = "ulp x"
  have u: "0 < ?u" by (rule ulp_pos)
  have "double x - x = (of_int (roundHalfEven (x / ?u)) - x / ?u) * ?u"
    using u False by (simp add: double_def algebra_simps)
  then have "\<bar>double x - x\<bar> = \<bar>of_int (roundHalfEven (x / ?u)) - x / ?u\<bar> * ?u"
    using u by (simp add: abs_mult)
  also have "\<dots> \<le> (1 / 2) * ?u"
    using roundHalfEven_err [of "x / ?u"] u by (intro mult_right_mono) simp_all
  also have "\<dots> \<le> (1 / 2) * (1 / 2 ^ 40)"
    using ulp_le [OF assms] by simp
  finally show ?thesis by simp
qed

lemma weights_value [code]:
  "HOLE_WEIGHT = 10" "HEIGHT_WEIGHT = 1 / 2"
  "BUMPINESS_WEIGHT = 5404319552844595 / 18014398509481984" "LINES_WEIGHT = - 5"
  by code_simp+

lemma times64_close:
  assumes "0 \<le> a" "a \<le> 200" "\<bar>w - w0\<bar> \<le> 1 / 2 ^ 41" "\<bar>w0\<bar> \<le> 10"
  shows "\<bar>times64 a w - a * w0\<bar> \<le> 201 / 2 ^ 41"
proof -
  have "\<bar>a * w - a * w0\<bar> = a * \<bar>w - w0\<bar>"
    using assms(1) by (simp add: abs_mult flip: right_diff_distrib)
  also have "\<dots> \<le> 200 * (1 / 2 ^ 41)"
    using assms by (intro mult_mono) simp_all
  finally have d: "\<bar>a * w - a * w0\<bar> \<le> 200 / 2 ^ 41" by simp
  have "\<bar>a * w0\<bar> = a * \<bar>w0\<bar>" using assms(1) by (simp add: abs_mult)
  also have "\<dots> \<le> 200 * 10" using assms by (intro mult_mono) simp_all
  finally have m: "\<bar>a * w0\<bar> \<le> 2000" by simp
  have "(200 :: real) / 2 ^ 41 \<le> 1" by simp
  then have "\<bar>a * w\<bar> \<le> 4096" using d m by linarith
  from double_err [OF this] d show ?thesis unfolding times64_def by linarith
qed

lemma plus64_close:
  assumes "\<bar>x - x0\<bar> \<le> dx" "\<bar>y - y0\<bar> \<le> dy" "\<bar>x0\<bar> + \<bar>y0\<bar> + dx + dy \<le> 4096"
  shows "\<bar>plus64 x y - (x0 + y0)\<bar> \<le> dx + dy + 1 / 2 ^ 41"
proof -
  have "\<bar>x + y\<bar> \<le> 4096" using assms by linarith
  from double_err [OF this] assms(1,2) show ?thesis unfolding plus64_def by linarith
qed

lemma foldE_bound:
  assumes "\<And>v s s'. f v s = Inr s' \<Longrightarrow> g s' \<le> g s + k"
  shows "foldE f vs s = Inr s' \<Longrightarrow> g s' \<le> g s + length vs * (k :: nat)"
proof (induction vs arbitrary: s)
  case Nil
  then show ?case by simp
next
  case (Cons v vs)
  from Cons.prems obtain s1 where s1: "f v s = Inr s1" "foldE f vs s1 = Inr s'"
    by (cases "f v s") simp_all
  from assms [OF s1(1)] Cons.IH [OF s1(2)] show ?case by simp
qed

lemma foldE_inv:
  assumes "\<And>v s s'. P s \<Longrightarrow> f v s = Inr s' \<Longrightarrow> P s'"
  shows "P s \<Longrightarrow> foldE f vs s = Inr s' \<Longrightarrow> P s'"
proof (induction vs arbitrary: s)
  case Nil
  then show ?case by simp
next
  case (Cons v vs)
  from Cons.prems obtain s1 where s1: "f v s = Inr s1" "foldE f vs s1 = Inr s'"
    by (cases "f v s") simp_all
  from Cons.IH [OF assms [OF Cons.prems(1) s1(1)] s1(2)] show ?case .
qed

lemma countHoles_le:
  assumes "countHoles board = Inr n"
  shows "n \<le> BOARD_WIDTH * BOARD_HEIGHT"
proof -
  have inner: "snd s' \<le> snd s + 1"
    if "(case s of (foundBlock, holes') \<Rightarrow>
              map_sum id
                (\<lambda>filled. if filled then (True, holes')
                           else if foundBlock then (foundBlock, holes' + 1)
                           else (foundBlock, holes'))
                (notNullAt board r c)) = Inr s'" for r c and s s' :: "bool \<times> nat"
    using that by (cases s; cases "notNullAt board r c") (auto split: if_splits)
  have col: "n' \<le> h + BOARD_HEIGHT"
    if "map_sum id snd
          (foldE (\<lambda>r (foundBlock, holes').
              map_sum id
                (\<lambda>filled. if filled then (True, holes')
                           else if foundBlock then (foundBlock, holes' + 1)
                           else (foundBlock, holes'))
                (notNullAt board r c))
            [0..<BOARD_HEIGHT] (False, h)) = Inr n'" for c h n'
  proof -
    from that obtain s' where s': "foldE (\<lambda>r (foundBlock, holes').
              map_sum id
                (\<lambda>filled. if filled then (True, holes')
                           else if foundBlock then (foundBlock, holes' + 1)
                           else (foundBlock, holes'))
                (notNullAt board r c))
            [0..<BOARD_HEIGHT] (False, h) = Inr s'" "n' = snd s'"
      by (cases "foldE (\<lambda>r (foundBlock, holes').
              map_sum id
                (\<lambda>filled. if filled then (True, holes')
                           else if foundBlock then (foundBlock, holes' + 1)
                           else (foundBlock, holes'))
                (notNullAt board r c))
            [0..<BOARD_HEIGHT] (False, h)") simp_all
    from foldE_bound [where g = snd and k = 1, OF inner s'(1)] s'(2) show ?thesis by simp
  qed
  from foldE_bound [where g = "\<lambda>h. h" and k = BOARD_HEIGHT, OF col assms [unfolded countHoles_def]]
  show ?thesis by simp
qed

lemma heightFrom_le: "heightFrom first \<le> BOARD_HEIGHT"
  by (simp add: heightFrom_def split: option.splits)

lemma sum_list_upt_le:
  "(\<And>i. i < n \<Longrightarrow> f i \<le> (k :: nat)) \<Longrightarrow> (\<Sum>i\<leftarrow>[0..<n]. f i) \<le> n * k"
proof (induction n)
  case 0
  then show ?case by simp
next
  case (Suc n)
  have "(\<Sum>i\<leftarrow>[0..<n]. f i) \<le> n * k" by (rule Suc.IH) (simp add: Suc.prems)
  moreover have "f n \<le> k" by (simp add: Suc.prems)
  ultimately show ?case by simp
qed

lemma calculateBoardMetrics_le:
  assumes "calculateBoardMetrics board = Inr m"
  shows "holes m \<le> BOARD_WIDTH * BOARD_HEIGHT" "height m \<le> BOARD_HEIGHT"
    "bumpiness m \<le> BOARD_WIDTH * BOARD_HEIGHT"
proof -
  from assms obtain hs topRow chs where
    hs: "countHoles board = Inr hs" and
    chs: "foldE (\<lambda>c columnHeights.
                    map_sum id (\<lambda>first. columnHeights @ [heightFrom first])
                      (findFirst (\<lambda>r. notNullAt board r c) [0..<BOARD_HEIGHT]))
                 [0..<BOARD_WIDTH] [] = Inr chs" and
    m: "m = \<lparr>holes = hs, height = heightFrom topRow,
             bumpiness = (\<Sum>i\<leftarrow>[0..<length chs - 1].
                            nat \<bar>int (chs ! i) - int (chs ! (i + 1))\<bar>)\<rparr>"
    by (auto simp: calculateBoardMetrics_def split: sum.splits)
  show "holes m \<le> BOARD_WIDTH * BOARD_HEIGHT" using countHoles_le [OF hs] m by simp
  show "height m \<le> BOARD_HEIGHT" using m by (simp add: heightFrom_le)
  have step_len: "length s' \<le> length s + 1"
    if "map_sum id (\<lambda>first. s @ [heightFrom first])
          (findFirst (\<lambda>r. notNullAt board r c) [0..<BOARD_HEIGHT]) = Inr s'" for c s s'
    using that by (cases "findFirst (\<lambda>r. notNullAt board r c) [0..<BOARD_HEIGHT]") auto
  have step_all: "\<forall>h\<in>set s'. h \<le> BOARD_HEIGHT"
    if "\<forall>h\<in>set s. h \<le> BOARD_HEIGHT"
       "map_sum id (\<lambda>first. s @ [heightFrom first])
          (findFirst (\<lambda>r. notNullAt board r c) [0..<BOARD_HEIGHT]) = Inr s'" for c s s'
    using that by (cases "findFirst (\<lambda>r. notNullAt board r c) [0..<BOARD_HEIGHT]")
      (auto simp: heightFrom_le)
  have len: "length chs \<le> BOARD_WIDTH"
    using foldE_bound [where g = length and k = 1, OF step_len chs] by simp
  have all: "\<forall>h\<in>set chs. h \<le> BOARD_HEIGHT"
    by (rule foldE_inv [where P = "\<lambda>s. \<forall>h\<in>set s. h \<le> BOARD_HEIGHT", OF step_all _ chs]) simp_all
  have "(\<Sum>i\<leftarrow>[0..<length chs - 1]. nat \<bar>int (chs ! i) - int (chs ! (i + 1))\<bar>)
        \<le> (length chs - 1) * BOARD_HEIGHT"
  proof (rule sum_list_upt_le)
    fix i assume "i < length chs - 1"
    then have "chs ! i \<le> BOARD_HEIGHT" "chs ! (i + 1) \<le> BOARD_HEIGHT"
      using all by (simp_all add: all_set_conv_all_nth)
    then show "nat \<bar>int (chs ! i) - int (chs ! (i + 1))\<bar> \<le> BOARD_HEIGHT" by linarith
  qed
  also have "\<dots> \<le> BOARD_WIDTH * BOARD_HEIGHT"
  proof (rule mult_le_mono1)
    show "length chs - 1 \<le> BOARD_WIDTH" using len by linarith
  qed
  finally show "bumpiness m \<le> BOARD_WIDTH * BOARD_HEIGHT" using m by simp
qed

lemma weightedSum_close:
  assumes "holes m \<le> 200" "height m \<le> 200" "bumpiness m \<le> 200" "l \<le> 200"
  shows "\<bar>weightedSum m l - compositeScore m l\<bar> \<le> 807 / 2 ^ 41"
proof -
  let ?h = "real (holes m)" and ?t = "real (height m)" and ?b = "real (bumpiness m)"
    and ?l = "real l"
  have r: "0 \<le> ?h" "?h \<le> 200" "0 \<le> ?t" "?t \<le> 200" "0 \<le> ?b" "?b \<le> 200" "0 \<le> ?l" "?l \<le> 200"
    using assms by simp_all
  have p1: "\<bar>times64 ?h HOLE_WEIGHT - ?h * 10\<bar> \<le> 201 / 2 ^ 41"
    by (rule times64_close [OF r(1,2)]) (simp_all add: weights_value)
  have p2: "\<bar>times64 ?t HEIGHT_WEIGHT - ?t * (5 / 10)\<bar> \<le> 201 / 2 ^ 41"
    by (rule times64_close [OF r(3,4)]) (simp_all add: weights_value)
  have p3: "\<bar>times64 ?b BUMPINESS_WEIGHT - ?b * (3 / 10)\<bar> \<le> 201 / 2 ^ 41"
    by (rule times64_close [OF r(5,6)]) (simp_all add: weights_value)
  have p4: "\<bar>times64 ?l LINES_WEIGHT - ?l * (- 5)\<bar> \<le> 201 / 2 ^ 41"
    by (rule times64_close [OF r(7,8)]) (simp_all add: weights_value)
  have e: "(201 :: real) / 2 ^ 41 \<le> 1" by simp
  have s1: "\<bar>plus64 (times64 ?h HOLE_WEIGHT) (times64 ?t HEIGHT_WEIGHT)
             - (?h * 10 + ?t * (5 / 10))\<bar> \<le> 201 / 2 ^ 41 + 201 / 2 ^ 41 + 1 / 2 ^ 41"
    by (rule plus64_close [OF p1 p2]) (use r e in linarith)
  have s2: "\<bar>plus64 (plus64 (times64 ?h HOLE_WEIGHT) (times64 ?t HEIGHT_WEIGHT))
                    (times64 ?b BUMPINESS_WEIGHT)
             - ((?h * 10 + ?t * (5 / 10)) + ?b * (3 / 10))\<bar>
            \<le> (201 / 2 ^ 41 + 201 / 2 ^ 41 + 1 / 2 ^ 41) + 201 / 2 ^ 41 + 1 / 2 ^ 41"
    by (rule plus64_close [OF s1 p3]) (use r e in linarith)
  have s3: "\<bar>plus64 (plus64 (plus64 (times64 ?h HOLE_WEIGHT) (times64 ?t HEIGHT_WEIGHT))
                            (times64 ?b BUMPINESS_WEIGHT))
                    (times64 ?l LINES_WEIGHT)
             - (((?h * 10 + ?t * (5 / 10)) + ?b * (3 / 10)) + ?l * (- 5))\<bar>
            \<le> ((201 / 2 ^ 41 + 201 / 2 ^ 41 + 1 / 2 ^ 41) + 201 / 2 ^ 41 + 1 / 2 ^ 41)
               + 201 / 2 ^ 41 + 1 / 2 ^ 41"
    by (rule plus64_close [OF s2 p4]) (use r e in linarith)
  then show ?thesis by (simp add: compositeScore_def weightedSum_def)
qed

lemma exactScore_close:
  assumes "\<bar>sc - compositeScore m l\<bar> \<le> 807 / 2 ^ 41"
  shows "exactScore sc = compositeScore m l"
proof -
  define k :: int where
    "k = 100 * int (holes m) + 5 * int (height m) + 3 * int (bumpiness m) - 50 * int l"
  have k: "of_int k = 10 * compositeScore m l" by (simp add: k_def compositeScore_def)
  have "\<bar>10 * sc - of_int k\<bar> = \<bar>10 * (sc - compositeScore m l)\<bar>"
    by (simp only: k right_diff_distrib)
  also have "\<dots> = \<bar>10\<bar> * \<bar>sc - compositeScore m l\<bar>" by (rule abs_mult)
  also have "\<dots> = 10 * \<bar>sc - compositeScore m l\<bar>" by simp
  also have "\<dots> \<le> 10 * (807 / 2 ^ 41)" using assms by simp
  also have "\<dots> < 1 / 2" by simp
  finally have "round (10 * sc) = k" by (rule round_unique')
  then have "exactScore sc = of_int k / 10" by (simp only: exactScore_def)
  then show ?thesis unfolding k by simp
qed

lemma snd_clearLines_le: "snd (clearLines board) \<le> length board"
  by (simp add: clearLines_eq)

lemma scoreBoardState_exact:
  assumes "calculateBoardMetrics resultBoard = Inr m" "linesCleared \<le> BOARD_HEIGHT"
  shows "scoreBoardState currentBoard resultBoard linesCleared = Inr (weightedSum m linesCleared)"
    and "exactScore (weightedSum m linesCleared) = compositeScore m linesCleared"
proof -
  show "scoreBoardState currentBoard resultBoard linesCleared = Inr (weightedSum m linesCleared)"
    by (simp add: scoreBoardState_def assms(1))
  have b: "holes m \<le> 200" "height m \<le> 200" "bumpiness m \<le> 200" "linesCleared \<le> 200"
    using calculateBoardMetrics_le [OF assms(1)] assms(2)
    by (simp_all add: BOARD_WIDTH_def BOARD_HEIGHT_def)
  show "exactScore (weightedSum m linesCleared) = compositeScore m linesCleared"
    by (rule exactScore_close) (rule weightedSum_close [OF b])
qed

lemma exactScore_mono: "a \<le> b \<Longrightarrow> exactScore a \<le> exactScore b"
  unfolding exactScore_def by (simp add: round_mono divide_right_mono)

lemma tryPlacement_outcome:
  "tryPlacement shapes t board rot x =
     bindR (trialOutcome shapes t board rot x) (\<lambda>outcome.
       case outcome of
         None \<Rightarrow> returnR None
       | Some (m, l) \<Rightarrow> returnR (Some (weightedSum m l, l)))"
  unfolding tryPlacement_def trialOutcome_def scoreBoardState_def
  by (auto simp: bindR_def liftE_def returnR_def split: option.splits sum.splits)

lemma weights_sign:
  "0 < HOLE_WEIGHT" "0 < HEIGHT_WEIGHT" "0 < BUMPINESS_WEIGHT" "LINES_WEIGHT < 0"
  by (simp_all add: weights_value)

text \<open>
  The stored score for 7 holes, height 5, bumpiness 12 and 4 cleared lines is
  56.099999999999994, where the exact sum is 56.1.
\<close>

lemma weightedSum_rounded:
  "weightedSum \<lparr>holes = 7, height = 5, bumpiness = 12\<rparr> 4 = 1973843274183475 / 35184372088832"
  "compositeScore \<lparr>holes = 7, height = 5, bumpiness = 12\<rparr> 4 = 561 / 10"
  by code_simp (simp add: compositeScore_def)

lemma foldR_total:
  "(\<And>v s. v \<in> set vs \<Longrightarrow> \<exists>s'. f v s = Some (Inr s')) \<Longrightarrow> \<exists>s'. foldR f vs s = Some (Inr s')"
proof (induction vs arbitrary: s)
  case Nil
  then show ?case by (simp add: returnR_def)
next
  case (Cons v vs)
  from Cons.prems [of v s] obtain s1 where "f v s = Some (Inr s1)" by auto
  moreover have "\<exists>s'. foldR f vs s1 = Some (Inr s')" by (rule Cons.IH) (simp add: Cons.prems)
  ultimately show ?case by simp
qed

lemma isBoardMostlyEmpty_rect:
  assumes "rect board"
  shows "\<exists>b. isBoardMostlyEmpty board = Inr b"
  unfolding isBoardMostlyEmpty_def
proof (rule map_sum_Inr, rule foldE_Inr)
  fix r :: nat and k :: nat
  assume "r \<in> set [0..<BOARD_HEIGHT]"
  then have r: "r < BOARD_HEIGHT" by simp
  show "\<exists>s'. foldE (\<lambda>c filledCells'.
                 map_sum id (\<lambda>filled. if filled then filledCells' + 1 else filledCells')
                   (notNullAt board r c))
              [0..<BOARD_WIDTH] k = Inr s'"
  proof (rule foldE_Inr)
    fix c :: nat and s :: nat
    show "\<exists>s'. map_sum id (\<lambda>filled. if filled then s + 1 else s) (notNullAt board r c) = Inr s'"
      by (rule map_sum_Inr) (rule notNullAt_rect [OF assms r])
  qed
qed

lemma hasNearCompleteLine_rect:
  assumes "rect board"
  shows "\<exists>b. hasNearCompleteLine board = Inr b"
  unfolding hasNearCompleteLine_def
proof (rule map_sum_Inr, rule findFirst_Inr)
  fix r assume "r \<in> set [0..<BOARD_HEIGHT]"
  then show "\<exists>b. rowNearlyFull board r = Inr b"
    using assms by (simp add: rowNearlyFull_def rect_def)
qed

lemma set_pieceTypes: "set pieceTypes = UNIV"
proof -
  have "t \<in> set pieceTypes" for t by (cases t) (simp_all add: pieceTypes_def)
  then show ?thesis by blast
qed

lemma randomPiece_Some:
  assumes "0 \<le> rnd n" "rnd n < 1"
  shows "\<exists>t. randomPiece rnd n = (Some t, n + 1)"
proof -
  have "rnd n * 7 < 7" using assms by simp
  then have "\<lfloor>rnd n * 7\<rfloor> < 7" by (simp add: floor_less_iff)
  moreover have "0 \<le> \<lfloor>rnd n * 7\<rfloor>" using assms by simp
  ultimately have "nat \<lfloor>rnd n * 7\<rfloor> < 7" by linarith
  moreover have "length pieceTypes = 7" by (simp add: pieceTypes_def)
  ultimately show ?thesis using \<open>0 \<le> \<lfloor>rnd n * 7\<rfloor>\<close> by (simp add: randomPiece_def Let_def)
qed

lemma findBestPlacement_total:
  assumes "wf_board board" "shapeOk (shapes t)"
  shows "\<exists>res. findBestPlacement shapes t board = Some (Inr res)"
proof -
  define out where "out rot x =
    (case tryPlacement shapes t board rot x of Some (Inr v) \<Rightarrow> v | _ \<Rightarrow> None)" for rot x
  have out: "tryPlacement shapes t board rot x = Some (Inr (out rot x))" for rot x
    using tryPlacement_total [of board shapes t rot x, OF assms] by (auto simp: out_def)
  show ?thesis using findBestPlacement_fold [of shapes t board out, OF out] by simp
qed

lemma searchBestPiece_total:
  assumes "wf_board board" "\<forall>t. shapeOk (shapes t)"
  shows "\<exists>t. searchBestPiece shapes board = Some (Inr t)"
proof -
  have "\<exists>s'. foldR (\<lambda>pieceType (bestPiece, bestScore).
                     bindR (findBestPlacement shapes pieceType board) (\<lambda>placement.
                       case placement of
                         None \<Rightarrow> returnR (bestPiece, bestScore)
                       | Some p \<Rightarrow>
                           if belowBest (p_score p) bestScore
                           then returnR (pieceType, Some (p_score p))
                           else returnR (bestPiece, bestScore)))
                  pieceTypes (TT, None) = Some (Inr s')"
  proof (rule foldR_total)
    fix v :: TetrominoType and s :: "TetrominoType \<times> real option"
    obtain res where "findBestPlacement shapes v board = Some (Inr res)"
      using findBestPlacement_total [of board shapes v] assms by auto
    then show "\<exists>s'. (case s of (bestPiece, bestScore) \<Rightarrow>
                     bindR (findBestPlacement shapes v board) (\<lambda>placement.
                       case placement of
                         None \<Rightarrow> returnR (bestPiece, bestScore)
                       | Some p \<Rightarrow>
                           if belowBest (p_score p) bestScore
                           then returnR (v, Some (p_score p))
                           else returnR (bestPiece, bestScore))) = Some (Inr s')"
      by (cases s; cases res) (simp_all add: returnR_def)
  qed
  then obtain s' where "foldR (\<lambda>pieceType (bestPiece, bestScore).
                     bindR (findBestPlacement shapes pieceType board) (\<lambda>placement.
                       case placement of
                         None \<Rightarrow> returnR (bestPiece, bestScore)
                       | Some p \<Rightarrow>
                           if belowBest (p_score p) bestScore
                           then returnR (pieceType, Some (p_score p))
                           else returnR (bestPiece, bestScore)))
                  pieceTypes (TT, None) = Some (Inr s')"
    by blast
  then have "searchBestPiece shapes board =
             bindR (Some (Inr s')) (\<lambda>(bestPiece, bestScore). returnR bestPiece)"
    by (simp only: searchBestPiece_def)
  then show ?thesis by (cases s') (simp add: returnR_def)
qed

lemma searchBestPiece_default:
  assumes "\<forall>t. findBestPlacement shapes t board = Some (Inr None)"
  shows "searchBestPiece shapes board = Some (Inr TT)"
proof -
  have "foldR (\<lambda>pieceType (bestPiece, bestScore).
                     bindR (findBestPlacement shapes pieceType board) (\<lambda>placement.
                       case placement of
                         None \<Rightarrow> returnR (bestPiece, bestScore)
                       | Some p \<Rightarrow>
                           if belowBest (p_score p) bestScore
                           then returnR (pieceType, Some (p_score p))
                           else returnR (bestPiece, bestScore)))
                  pieceTypes (TT, None) = returnR (fold (\<lambda>v s. s) pieceTypes (TT, None))"
    by (rule foldR_pure) (simp add: assms split: prod.splits)
  moreover have "fold (\<lambda>v s. s) vs s0 = s0" for vs :: "TetrominoType list" and s0 :: "TetrominoType \<times> real option"
    by (induction vs) simp_all
  ultimately show ?thesis by (simp add: searchBestPiece_def returnR_def)
qed

lemma selectOptimalPiece_cases:
  assumes "isBoardMostlyEmpty board = Inr mostlyEmpty" "hasNearCompleteLine board = Inr near"
  shows "selectOptimalPiece shapes rnd n board =
     (if mostlyEmpty then returnR (randomPiece rnd n)
      else if \<not> near \<and> rnd n < 6 / 10 then returnR (randomPiece rnd (n + 1))
      else if rnd (if \<not> near then n + 1 else n) < 2 / 10
           then returnR (randomPiece rnd ((if \<not> near then n + 1 else n) + 1))
      else bindR (searchBestPiece shapes board) (\<lambda>bestPiece.
             returnR (Some bestPiece, (if \<not> near then n + 1 else n) + 1)))"
  by (simp add: selectOptimalPiece_def assms Let_def)

lemma selectOptimalPiece_returns:
  assumes "wf_board board" "\<forall>t. shapeOk (shapes t)" "\<forall>k. 0 \<le> rnd k \<and> rnd k < 1"
  shows "\<exists>t n'. selectOptimalPiece shapes rnd n board = Some (Inr (Some t, n'))"
proof -
  have rb: "rect board" by (rule wf_board_rect [OF assms(1)])
  obtain mostlyEmpty where m: "isBoardMostlyEmpty board = Inr mostlyEmpty"
    using isBoardMostlyEmpty_rect [OF rb] by auto
  obtain near where h: "hasNearCompleteLine board = Inr near"
    using hasNearCompleteLine_rect [OF rb] by auto
  obtain t where s: "searchBestPiece shapes board = Some (Inr t)"
    using searchBestPiece_total [OF assms(1,2)] by auto
  have r: "\<exists>t. randomPiece rnd k = (Some t, k + 1)" for k
    using randomPiece_Some [of rnd k] assms(3) by simp
  show ?thesis
    unfolding selectOptimalPiece_cases [OF m h]
    using r [of n] r [of "n + 1"] r [of "n + 2"] s
    by (auto simp: returnR_def)
qed


lemma fold_ignore: "fold (\<lambda>v s. s) vs s0 = s0"
  by (induction vs) simp_all

lemma simulatePlacement_wf:
  assumes "wf_board board" "shapeOk (shapes t)"
  shows "\<exists>piece. descend \<lparr>kind = t, shape = shapes t, pos_x = x, pos_y = 0, rotation = rot\<rparr> board
                  = Some (Inr piece) \<and> 0 \<le> pos_y piece \<and> hasOccupied piece \<and>
           (if validPlacement piece board
            then \<exists>nb. addPieceToBoard board piece = Inr nb \<and> rect (fst (clearLines nb)) \<and>
                   simulatePlacement shapes t board x rot = Some (Inr (Some (fst (clearLines nb))))
            else simulatePlacement shapes t board x rot = Some (Inr None))"
proof -
  let ?p0 = "\<lparr>kind = t, shape = shapes t, pos_x = x, pos_y = 0, rotation = rot\<rparr>"
  from generateNewPiece_ok [of shapes t, OF shapeOk_nonempty [OF assms(2)]] obtain px where
    g: "generateNewPiece shapes t =
          Inr \<lparr>kind = t, shape = shapes t, pos_x = px, pos_y = 0, rotation = 0\<rparr>"
    by auto
  have occ: "hasOccupied ?p0" by (rule shapeOk_hasOccupied [of shapes t, OF assms(2)])
  let ?at = "\<lambda>y'. \<lparr>kind = t, shape = shapes t, pos_x = x, pos_y = y', rotation = rot\<rparr>"
  from descend_wf [OF assms(1) occ] obtain y' where
    y': "0 \<le> y'" "descend ?p0 board = Some (Inr (?at y'))"
    by auto
  then obtain piece where d: "descend ?p0 board = Some (Inr piece)" and pc: "piece = ?at y'"
    by simp
  have po: "0 \<le> pos_y piece" "hasOccupied piece"
    using y'(1) occ by (simp_all add: pc hasOccupied_def)
  have v: "isValidMove piece board = Inr (validPlacement piece board)"
    by (rule isValidMove_wf [OF assms(1)])
  have t0: "simulatePlacement shapes t board x rot =
      bindR (liftE (isValidMove piece board)) (\<lambda>ok.
       if \<not> ok then returnR None
       else bindR (liftE (addPieceToBoard board piece)) (\<lambda>newBoard.
            returnR (Some (fst (clearLines newBoard)))))"
    using d by (simp add: simulatePlacement_def g)
  show ?thesis
  proof (cases "validPlacement piece board")
    case False
    then show ?thesis using d po by (simp add: t0 v returnR_def)
  next
    case True
    from addPieceToBoard_ok [OF wf_board_rect [OF assms(1)] validPlacement_insideRightEdge [OF True]]
    obtain nb where nb: "addPieceToBoard board piece = Inr nb" "rect nb" by blast
    have "simulatePlacement shapes t board x rot = Some (Inr (Some (fst (clearLines nb))))"
      using True by (simp add: t0 v nb(1) returnR_def)
    then show ?thesis using True d po nb rect_clearLines [OF nb(2)] by auto
  qed
qed

lemma findBestPlacement_holes_total:
  assumes "wf_board board" "shapeOk (shapes t)"
  shows "\<exists>res. findBestPlacement_holes shapes rnd n t board = Some (Inr res)"
  unfolding findBestPlacement_holes_def
proof (rule foldR_total, rule foldR_total)
  fix rot :: nat and x :: int and s :: "HolesPlacement option \<times> nat"
  obtain best n' where s: "s = (best, n')" by (cases s)
  from simulatePlacement_wf [of board shapes t x rot, OF assms] obtain r where
    r: "simulatePlacement shapes t board x rot = Some (Inr r)" "\<forall>rb. r = Some rb \<longrightarrow> rect rb"
    by (auto split: if_splits)
  show "\<exists>s'. (case s of (bestPlacement, n') \<Rightarrow>
              bindR (simulatePlacement shapes t board x rot) (\<lambda>resultBoard.
                case resultBoard of
                  None \<Rightarrow> returnR (bestPlacement, n')
                | Some rb \<Rightarrow>
                    bindR (liftE (calculateBoardMetrics rb)) (\<lambda>metrics.
                      case bestPlacement of
                        None \<Rightarrow>
                          returnR (Some \<lparr>hp_holes = holes metrics, hp_x = x, hp_rotation = rot\<rparr>, n')
                      | Some best \<Rightarrow>
                          if holes metrics < hp_holes best
                          then returnR (Some \<lparr>hp_holes = holes metrics, hp_x = x, hp_rotation = rot\<rparr>, n')
                          else if holes metrics = hp_holes best
                          then (if rnd n' < 1 / 2
                                then returnR (Some \<lparr>hp_holes = holes metrics, hp_x = x,
                                                     hp_rotation = rot\<rparr>, n' + 1)
                                else returnR (bestPlacement, n' + 1))
                          else returnR (bestPlacement, n')))) = Some (Inr s')"
  proof (cases r)
    case None
    then show ?thesis using r(1) s by (simp add: returnR_def)
  next
    case (Some rb)
    then obtain m where "calculateBoardMetrics rb = Inr m"
      using r(2) calculateBoardMetrics_rect [of rb] by auto
    then show ?thesis using r(1) s Some by (cases best) (simp_all add: returnR_def)
  qed
qed

lemma findBestPlacement_holes_none:
  assumes "\<And>rot x. simulatePlacement shapes t board x rot = Some (Inr None)"
  shows "findBestPlacement_holes shapes rnd n t board = Some (Inr (None, n))"
proof -
  have "foldR (\<lambda>rot. foldR (\<lambda>x (bestPlacement, n').
              bindR (simulatePlacement shapes t board x rot) (\<lambda>resultBoard.
                case resultBoard of
                  None \<Rightarrow> returnR (bestPlacement, n')
                | Some rb \<Rightarrow>
                    bindR (liftE (calculateBoardMetrics rb)) (\<lambda>metrics.
                      case bestPlacement of
                        None \<Rightarrow>
                          returnR (Some \<lparr>hp_holes = holes metrics, hp_x = x, hp_rotation = rot\<rparr>, n')
                      | Some best \<Rightarrow>
                          if holes metrics < hp_holes best
                          then returnR (Some \<lparr>hp_holes = holes metrics, hp_x = x, hp_rotation = rot\<rparr>, n')
                          else if holes metrics = hp_holes best
                          then (if rnd n' < 1 / 2
                                then returnR (Some \<lparr>hp_holes = holes metrics, hp_x = x,
                                                     hp_rotation = rot\<rparr>, n' + 1)
                                else returnR (bestPlacement, n' + 1))
                          else returnR (bestPlacement, n'))))
            [- 3..int BOARD_WIDTH + 2])
       [0..<4] (None, n) =
     returnR (fold (\<lambda>rot s. fold (\<lambda>x s'. s') [- 3..int BOARD_WIDTH + 2] s) [0..<4] (None, n))"
    by (rule foldR_pure, rule foldR_pure) (simp add: assms split: prod.splits)
  then show ?thesis
    by (simp add: findBestPlacement_holes_def fold_ignore returnR_def)
qed

lemma selectOptimalPiece_holes_total:
  assumes "wf_board board" "\<forall>t. shapeOk (shapes t)"
  shows "\<exists>t n'. selectOptimalPiece_holes shapes rnd n board = Some (Inr (t, n'))"
proof -
  have "\<exists>s'. foldR (\<lambda>pieceType (bestPiece, bestHoles, n').
                     bindR (findBestPlacement_holes shapes rnd n' pieceType board)
                       (\<lambda>(placement, n'').
                          case placement of
                            None \<Rightarrow> returnR (bestPiece, bestHoles, n'')
                          | Some p \<Rightarrow>
                              if belowBestHoles (hp_holes p) bestHoles
                              then returnR (pieceType, Some (hp_holes p), n'')
                              else returnR (bestPiece, bestHoles, n'')))
                  pieceTypes (TI, None, n) = Some (Inr s')"
  proof (rule foldR_total)
    fix v :: TetrominoType and s :: "TetrominoType \<times> nat option \<times> nat"
    obtain bp bh k where s: "s = (bp, bh, k)" by (cases s)
    obtain pl k' where "findBestPlacement_holes shapes rnd k v board = Some (Inr (pl, k'))"
      using findBestPlacement_holes_total [of board shapes v rnd k] assms by fastforce
    then show "\<exists>s'. (case s of (bestPiece, bestHoles, n') \<Rightarrow>
                     bindR (findBestPlacement_holes shapes rnd n' v board)
                       (\<lambda>(placement, n'').
                          case placement of
                            None \<Rightarrow> returnR (bestPiece, bestHoles, n'')
                          | Some p \<Rightarrow>
                              if belowBestHoles (hp_holes p) bestHoles
                              then returnR (v, Some (hp_holes p), n'')
                              else returnR (bestPiece, bestHoles, n''))) = Some (Inr s')"
      using s by (cases pl) (simp_all add: returnR_def)
  qed
  then obtain s' where "foldR (\<lambda>pieceType (bestPiece, bestHoles, n').
                     bindR (findBestPlacement_holes shapes rnd n' pieceType board)
                       (\<lambda>(placement, n'').
                          case placement of
                            None \<Rightarrow> returnR (bestPiece, bestHoles, n'')
                          | Some p \<Rightarrow>
                              if belowBestHoles (hp_holes p) bestHoles
                              then returnR (pieceType, Some (hp_holes p), n'')
                              else returnR (bestPiece, bestHoles, n'')))
                  pieceTypes (TI, None, n) = Some (Inr s')"
    by blast
  then have "selectOptimalPiece_holes shapes rnd n board =
             bindR (Some (Inr s')) (\<lambda>(bestPiece, bestHoles, n'). returnR (bestPiece, n'))"
    by (simp only: selectOptimalPiece_holes_def)
  then show ?thesis by (cases s') (simp add: returnR_def)
qed

lemma selectOptimalPiece_holes_default:
  assumes "\<forall>t m. \<exists>m'. findBestPlacement_holes shapes rnd m t board = Some (Inr (None, m'))"
  shows "\<exists>n'. selectOptimalPiece_holes shapes rnd n board = Some (Inr (TI, n'))"
proof -
  have "\<exists>n'. foldR (\<lambda>pieceType (bestPiece, bestHoles, n').
                     bindR (findBestPlacement_holes shapes rnd n' pieceType board)
                       (\<lambda>(placement, n'').
                          case placement of
                            None \<Rightarrow> returnR (bestPiece, bestHoles, n'')
                          | Some p \<Rightarrow>
                              if belowBestHoles (hp_holes p) bestHoles
                              then returnR (pieceType, Some (hp_holes p), n'')
                              else returnR (bestPiece, bestHoles, n'')))
                  vs (TI, None, k) = Some (Inr (TI, None, n'))" for vs k
  proof (induction vs arbitrary: k)
    case Nil
    then show ?case by (simp add: returnR_def)
  next
    case (Cons v vs)
    from assms obtain m' where
      "findBestPlacement_holes shapes rnd k v board = Some (Inr (None, m'))" by blast
    then show ?case using Cons.IH [of m'] by (simp add: returnR_def)
  qed
  from this [of pieceTypes n] obtain n' where "foldR (\<lambda>pieceType (bestPiece, bestHoles, n').
                     bindR (findBestPlacement_holes shapes rnd n' pieceType board)
                       (\<lambda>(placement, n'').
                          case placement of
                            None \<Rightarrow> returnR (bestPiece, bestHoles, n'')
                          | Some p \<Rightarrow>
                              if belowBestHoles (hp_holes p) bestHoles
                              then returnR (pieceType, Some (hp_holes p), n'')
                              else returnR (bestPiece, bestHoles, n'')))
                  pieceTypes (TI, None, n) = Some (Inr (TI, None, n'))"
    by blast
  then have "selectOptimalPiece_holes shapes rnd n board =
             bindR (Some (Inr (TI, None :: nat option, n')))
               (\<lambda>(bestPiece, bestHoles, n'). returnR (bestPiece, n'))"
    by (simp only: selectOptimalPiece_holes_def)
  then show ?thesis by (simp add: returnR_def)
qed

lemma fullBoard_invalid:
  assumes "hasOccupied piece" "0 \<le> pos_y piece"
  shows "\<not> validPlacement piece fullBoard"
proof
  assume v: "validPlacement piece fullBoard"
  from assms(1) obtain r c where rc: "r < length (getRotatedShape piece)"
    "c < length (getRotatedShape piece ! r)" "getRotatedShape piece ! r ! c \<noteq> 0"
    by (auto simp: hasOccupied_def list_ex_nth2)
  from v rc have ok: "cellOk fullBoard (pos_y piece + int r) (pos_x piece + int c)"
    by (simp add: validPlacement_iff)
  then have b: "nat (pos_y piece + int r) < BOARD_HEIGHT" "nat (pos_x piece + int c) < BOARD_WIDTH"
    using assms(2) by (auto simp: cellOk_def)
  have "fullBoard ! nat (pos_y piece + int r) ! nat (pos_x piece + int c) = Null"
    using ok assms(2) by (simp add: cellOk_def)
  then show False using b by (simp add: fullBoard_def)
qed

lemma wf_fullBoard: "wf_board fullBoard"
  by (simp add: wf_board_def fullBoard_def list_all_length)

lemma descend_spawn:
  assumes "wf_board board" "shapeOk (shapes t)"
  shows "\<exists>piece. descend \<lparr>kind = t, shape = shapes t, pos_x = x, pos_y = 0, rotation = rot\<rparr> board
                  = Some (Inr piece) \<and> 0 \<le> pos_y piece \<and> hasOccupied piece"
  using simulatePlacement_wf [of board shapes t x rot, OF assms] by blast

lemma fullBoard_trials:
  assumes "shapeOk (shapes t)"
  shows "tryPlacement shapes t fullBoard rot x = Some (Inr None)"
    and "simulatePlacement shapes t fullBoard x rot = Some (Inr None)"
proof -
  from descend_spawn [of fullBoard shapes t x rot, OF wf_fullBoard assms] obtain piece where
    p: "descend \<lparr>kind = t, shape = shapes t, pos_x = x, pos_y = 0, rotation = rot\<rparr> fullBoard
          = Some (Inr piece)" "0 \<le> pos_y piece" "hasOccupied piece"
    by blast
  have nv: "\<not> validPlacement piece fullBoard" by (rule fullBoard_invalid [OF p(3,2)])
  show "tryPlacement shapes t fullBoard rot x = Some (Inr None)"
    using tryPlacement_wf [of fullBoard shapes t x rot, OF wf_fullBoard assms] p(1) nv by auto
  show "simulatePlacement shapes t fullBoard x rot = Some (Inr None)"
    using simulatePlacement_wf [of fullBoard shapes t x rot, OF wf_fullBoard assms] p(1) nv by auto
qed

lemma fullBoard_findBestPlacement:
  assumes "shapeOk (shapes t)"
  shows "findBestPlacement shapes t fullBoard = Some (Inr None)"
proof -
  have "findBestPlacement shapes t fullBoard =
         Some (Inr (fold (stepBest (\<lambda>rot x. None))
                      (concat (map (\<lambda>rot. map (\<lambda>x. (rot, x)) [- 3..int BOARD_WIDTH + 2]) [0..<4]))
                      None))"
    by (rule findBestPlacement_fold) (rule fullBoard_trials(1) [of shapes t, OF assms])
  moreover have "fold (stepBest (\<lambda>rot x. None)) ps best = best" for ps best
    by (induction ps) (simp_all add: stepBest_def)
  ultimately show ?thesis by simp
qed

lemma shapeOk_exampleShapes: "shapeOk (exampleShapes t)"
  by (cases t) (simp_all add: shapeOk_def square_def)


lemma foldR_keep:
  assumes "\<And>v n. \<exists>n'. f v (b, n :: nat) = Some (Inr (b, n'))"
  shows "\<exists>n'. foldR f vs (b, n) = Some (Inr (b, n'))"
proof (induction vs arbitrary: n)
  case Nil
  then show ?case by (simp add: returnR_def)
next
  case (Cons v vs)
  from assms [of v n] obtain n1 where "f v (b, n) = Some (Inr (b, n1))" by blast
  then show ?case using Cons.IH [of n1] by simp
qed

lemma holes_trial_keep:
  fixes rnd :: "nat \<Rightarrow> real" and x :: int and n :: nat
  assumes "wf_board board" "shapeOk (shapes t)" "hp_holes b = 0" "\<forall>k. 1 / 2 \<le> rnd k"
  shows "\<exists>n'. (case (Some b, n) of (bestPlacement, n') \<Rightarrow>
              bindR (simulatePlacement shapes t board x rot) (\<lambda>resultBoard.
                case resultBoard of
                  None \<Rightarrow> returnR (bestPlacement, n')
                | Some rb \<Rightarrow>
                    bindR (liftE (calculateBoardMetrics rb)) (\<lambda>metrics.
                      case bestPlacement of
                        None \<Rightarrow>
                          returnR (Some \<lparr>hp_holes = holes metrics, hp_x = x, hp_rotation = rot\<rparr>, n')
                      | Some best \<Rightarrow>
                          if holes metrics < hp_holes best
                          then returnR (Some \<lparr>hp_holes = holes metrics, hp_x = x, hp_rotation = rot\<rparr>, n')
                          else if holes metrics = hp_holes best
                          then (if rnd n' < 1 / 2
                                then returnR (Some \<lparr>hp_holes = holes metrics, hp_x = x,
                                                     hp_rotation = rot\<rparr>, n' + 1)
                                else returnR (bestPlacement, n' + 1))
                          else returnR (bestPlacement, n')))) = Some (Inr (Some b, n'))"
proof -
  from simulatePlacement_wf [of board shapes t x rot, OF assms(1,2)] obtain r where
    r: "simulatePlacement shapes t board x rot = Some (Inr r)" "\<forall>rb. r = Some rb \<longrightarrow> rect rb"
    by (auto split: if_splits)
  have no: "\<not> rnd k < 1 / 2" for k using assms(4) [rule_format, of k] by simp
  show ?thesis
  proof (cases r)
    case None
    then show ?thesis using r(1) by (simp add: returnR_def)
  next
    case (Some rb)
    then obtain m where "calculateBoardMetrics rb = Inr m"
      using r(2) calculateBoardMetrics_rect [of rb] by auto
    then show ?thesis using r(1) Some assms(3) no by (simp add: returnR_def liftE_def)
  qed
qed

lemma trialMetrics_None:
  "trialMetrics shapes t board x rot = Some (Inr None) \<Longrightarrow>
   simulatePlacement shapes t board x rot = Some (Inr None)"
  by (auto simp: trialMetrics_def bindR_def returnR_def liftE_def
      split: option.splits sum.splits)

lemma trialMetrics_Some:
  "trialMetrics shapes t board x rot = Some (Inr (Some m)) \<Longrightarrow>
   \<exists>rb. simulatePlacement shapes t board x rot = Some (Inr (Some rb)) \<and>
        calculateBoardMetrics rb = Inr m"
  by (auto simp: trialMetrics_def bindR_def returnR_def liftE_def
      split: option.splits sum.splits)

text \<open>
  C4 (amended): for \<open>findBestPlacement\<close> of the revision of \<^verbatim>\<open>src/lib/utils.ts\<close> that has
  \<^verbatim>\<open>scoreBoardState\<close>. On a board of \<open>BOARD_HEIGHT\<close> rows of \<open>BOARD_WIDTH\<close> cells, for a kind
  whose shape is an N x N matrix with an occupied cell, \<open>findBestPlacement\<close> returns. It
  returns \<^verbatim>\<open>null\<close> exactly when no trial over the rotations 0 to 3 and the anchors
  \<open>-3 \<le> x < BOARD_WIDTH + 3\<close> is a valid placement; otherwise it returns one of these trials,
  with its score, and no valid trial has a lower score. The stored score of a trial is the
  binary64 value \<open>weightedSum\<close> of the metrics of the board after the merge and the line
  clear; the multiple of 1/10 nearest to it is the composite score
  \<open>holes * 10 + height * 0.5 + bumpiness * 0.3 + linesCleared * (-5)\<close> in exact arithmetic, and
  no valid trial has a lower composite score either. The first three weights are positive
  and the last is negative.
\<close>

theorem findBestPlacement_spec:
  assumes "wf_board board" "shapeOk (shapes t)"
  shows "\<exists>res. findBestPlacement shapes t board = Some (Inr res) \<and>
           (res = None \<longleftrightarrow>
              (\<forall>rot x. inSearchRange rot x \<longrightarrow>
                 tryPlacement shapes t board rot x = Some (Inr None))) \<and>
           (\<forall>best. res = Some best \<longrightarrow>
              inSearchRange (p_rotation best) (p_x best) \<and>
              tryPlacement shapes t board (p_rotation best) (p_x best) =
                Some (Inr (Some (p_score best, p_linesCleared best))) \<and>
              (\<forall>rot x sc l. inSearchRange rot x \<and>
                 tryPlacement shapes t board rot x = Some (Inr (Some (sc, l))) \<longrightarrow>
                 p_score best \<le> sc \<and> exactScore (p_score best) \<le> exactScore sc)) \<and>
           (\<forall>rot x sc l. tryPlacement shapes t board rot x = Some (Inr (Some (sc, l))) \<longrightarrow>
              (\<exists>piece nb m.
                 descend \<lparr>kind = t, shape = shapes t, pos_x = x, pos_y = 0, rotation = rot\<rparr> board
                   = Some (Inr piece) \<and>
                 isValidMove piece board = Inr True \<and>
                 addPieceToBoard board piece = Inr nb \<and> l = snd (clearLines nb) \<and>
                 calculateBoardMetrics (fst (clearLines nb)) = Inr m \<and>
                 sc = weightedSum m l \<and>
                 exactScore sc = compositeScore m l)) \<and>
           (\<forall>rot x. tryPlacement shapes t board rot x = Some (Inr None) \<longrightarrow>
              (\<exists>piece.
                 descend \<lparr>kind = t, shape = shapes t, pos_x = x, pos_y = 0, rotation = rot\<rparr> board
                   = Some (Inr piece) \<and>
                 isValidMove piece board = Inr False)) \<and>
           0 < HOLE_WEIGHT \<and> 0 < HEIGHT_WEIGHT \<and> 0 < BUMPINESS_WEIGHT \<and> LINES_WEIGHT < 0"
proof -
  define out where "out rot x =
    (case tryPlacement shapes t board rot x of Some (Inr v) \<Rightarrow> v | _ \<Rightarrow> None)" for rot x
  have out: "tryPlacement shapes t board rot x = Some (Inr (out rot x))" for rot x
    using tryPlacement_total [of board shapes t rot x, OF assms] by (auto simp: out_def)
  let ?res = "fold (stepBest out)
                (concat (map (\<lambda>rot. map (\<lambda>x. (rot, x)) [- 3..int BOARD_WIDTH + 2]) [0..<4])) None"
  have r: "findBestPlacement shapes t board = Some (Inr ?res)"
    by (rule findBestPlacement_fold) (rule out)
  have "bestInv out {} None" by (simp add: bestInv_def)
  from bestInv_fold [OF this, of "concat (map (\<lambda>rot. map (\<lambda>x. (rot, x)) [- 3..int BOARD_WIDTH + 2]) [0..<4])"]
  have inv: "bestInv out {p. inSearchRange (fst p) (snd p)} ?res"
    unfolding set_trials by simp
  have a: "?res = None \<longleftrightarrow>
              (\<forall>rot x. inSearchRange rot x \<longrightarrow> tryPlacement shapes t board rot x = Some (Inr None))"
    unfolding out using bestInv_None [OF inv] by simp
  have b: "\<forall>best. ?res = Some best \<longrightarrow>
              inSearchRange (p_rotation best) (p_x best) \<and>
              tryPlacement shapes t board (p_rotation best) (p_x best) =
                Some (Inr (Some (p_score best, p_linesCleared best))) \<and>
              (\<forall>rot x sc l. inSearchRange rot x \<and>
                 tryPlacement shapes t board rot x = Some (Inr (Some (sc, l))) \<longrightarrow>
                 p_score best \<le> sc \<and> exactScore (p_score best) \<le> exactScore sc)"
  proof (intro allI impI)
    fix best assume "?res = Some best"
    with inv have "bestInv out {p. inSearchRange (fst p) (snd p)} (Some best)" by simp
    from bestInv_Some [OF this]
    have f: "inSearchRange (p_rotation best) (p_x best)"
        "tryPlacement shapes t board (p_rotation best) (p_x best) =
                Some (Inr (Some (p_score best, p_linesCleared best)))"
        "\<forall>rot x sc l. inSearchRange rot x \<and>
                 tryPlacement shapes t board rot x = Some (Inr (Some (sc, l))) \<longrightarrow>
                 p_score best \<le> sc"
      unfolding out by simp_all
    have g: "\<forall>rot x sc l. inSearchRange rot x \<and>
                 tryPlacement shapes t board rot x = Some (Inr (Some (sc, l))) \<longrightarrow>
                 p_score best \<le> sc \<and> exactScore (p_score best) \<le> exactScore sc"
    proof (intro allI impI)
      fix rot x sc l
      assume "inSearchRange rot x \<and>
                 tryPlacement shapes t board rot x = Some (Inr (Some (sc, l)))"
      then have "p_score best \<le> sc" using f(3) by blast
      then show "p_score best \<le> sc \<and> exactScore (p_score best) \<le> exactScore sc"
        by (simp add: exactScore_mono)
    qed
    show "inSearchRange (p_rotation best) (p_x best) \<and>
              tryPlacement shapes t board (p_rotation best) (p_x best) =
                Some (Inr (Some (p_score best, p_linesCleared best))) \<and>
              (\<forall>rot x sc l. inSearchRange rot x \<and>
                 tryPlacement shapes t board rot x = Some (Inr (Some (sc, l))) \<longrightarrow>
                 p_score best \<le> sc \<and> exactScore (p_score best) \<le> exactScore sc)"
      by (intro conjI f(1,2) g)
  qed
  have c: "\<forall>rot x sc l. tryPlacement shapes t board rot x = Some (Inr (Some (sc, l))) \<longrightarrow>
              (\<exists>piece nb m.
                 descend \<lparr>kind = t, shape = shapes t, pos_x = x, pos_y = 0, rotation = rot\<rparr> board
                   = Some (Inr piece) \<and>
                 isValidMove piece board = Inr True \<and>
                 addPieceToBoard board piece = Inr nb \<and> l = snd (clearLines nb) \<and>
                 calculateBoardMetrics (fst (clearLines nb)) = Inr m \<and>
                 sc = weightedSum m l \<and>
                 exactScore sc = compositeScore m l)"
  proof (intro allI impI)
    fix rot x sc l
    assume tr: "tryPlacement shapes t board rot x = Some (Inr (Some (sc, l)))"
    from tryPlacement_wf [of board shapes t x rot, OF assms] obtain piece where
      p: "descend \<lparr>kind = t, shape = shapes t, pos_x = x, pos_y = 0, rotation = rot\<rparr> board
            = Some (Inr piece)"
         "if validPlacement piece board
            then \<exists>nb sc. addPieceToBoard board piece = Inr nb \<and>
                   scoreBoardState board (fst (clearLines nb)) (snd (clearLines nb)) = Inr sc \<and>
                   tryPlacement shapes t board rot x = Some (Inr (Some (sc, snd (clearLines nb))))
            else tryPlacement shapes t board rot x = Some (Inr None)"
      by blast
    have v: "validPlacement piece board" using p(2) tr by (auto split: if_splits)
    with p(2) tr obtain nb where
      nb: "addPieceToBoard board piece = Inr nb"
          "scoreBoardState board (fst (clearLines nb)) (snd (clearLines nb)) = Inr sc"
          "l = snd (clearLines nb)"
      by auto
    have "rect nb"
      using addPieceToBoard_ok [OF wf_board_rect [OF assms(1)] validPlacement_insideRightEdge [OF v]]
        nb(1) by auto
    then have l: "l \<le> BOARD_HEIGHT"
      using snd_clearLines_le [of nb] nb(3) by (simp add: rect_def)
    obtain m where m: "calculateBoardMetrics (fst (clearLines nb)) = Inr m"
      using nb(2) by (cases "calculateBoardMetrics (fst (clearLines nb))")
        (simp_all add: scoreBoardState_def)
    have sc: "sc = weightedSum m l"
      using scoreBoardState_exact(1) [OF m l, of board] nb(2,3) by simp
    have ex: "exactScore sc = compositeScore m l"
      unfolding sc by (rule scoreBoardState_exact(2) [OF m l])
    have "isValidMove piece board = Inr True"
      using v by (simp add: isValidMove_wf [OF assms(1)])
    then show "\<exists>piece nb m.
                 descend \<lparr>kind = t, shape = shapes t, pos_x = x, pos_y = 0, rotation = rot\<rparr> board
                   = Some (Inr piece) \<and>
                 isValidMove piece board = Inr True \<and>
                 addPieceToBoard board piece = Inr nb \<and> l = snd (clearLines nb) \<and>
                 calculateBoardMetrics (fst (clearLines nb)) = Inr m \<and>
                 sc = weightedSum m l \<and>
                 exactScore sc = compositeScore m l"
      using p(1) nb(1,3) m sc ex by blast
  qed
  have d: "\<forall>rot x. tryPlacement shapes t board rot x = Some (Inr None) \<longrightarrow>
              (\<exists>piece.
                 descend \<lparr>kind = t, shape = shapes t, pos_x = x, pos_y = 0, rotation = rot\<rparr> board
                   = Some (Inr piece) \<and>
                 isValidMove piece board = Inr False)"
  proof (intro allI impI)
    fix rot x
    assume tr: "tryPlacement shapes t board rot x = Some (Inr None)"
    from tryPlacement_wf [of board shapes t x rot, OF assms] obtain piece where
      p: "descend \<lparr>kind = t, shape = shapes t, pos_x = x, pos_y = 0, rotation = rot\<rparr> board
            = Some (Inr piece)"
         "if validPlacement piece board
            then \<exists>nb sc. addPieceToBoard board piece = Inr nb \<and>
                   scoreBoardState board (fst (clearLines nb)) (snd (clearLines nb)) = Inr sc \<and>
                   tryPlacement shapes t board rot x = Some (Inr (Some (sc, snd (clearLines nb))))
            else tryPlacement shapes t board rot x = Some (Inr None)"
      by blast
    have "\<not> validPlacement piece board" using p(2) tr by (auto split: if_splits)
    then have "isValidMove piece board = Inr False"
      by (simp add: isValidMove_wf [OF assms(1)])
    then show "\<exists>piece.
                 descend \<lparr>kind = t, shape = shapes t, pos_x = x, pos_y = 0, rotation = rot\<rparr> board
                   = Some (Inr piece) \<and>
                 isValidMove piece board = Inr False"
      using p(1) by blast
  qed
  show ?thesis
    by (intro exI [of _ ?res] conjI r a b c d weights_sign)
qed

theorem findBestPlacement_spec_witness:
  "wf_board createEmptyBoard \<and> shapeOk (exampleShapes TO) \<and>
   tryPlacement exampleShapes TO createEmptyBoard 0 0 =
     Some (Inr (Some (3602879701896397 / 2251799813685248, 0))) \<and>
   exactScore (3602879701896397 / 2251799813685248) = 8 / 5 \<and>
   (\<exists>best. findBestPlacement exampleShapes TO createEmptyBoard = Some (Inr (Some best)) \<and>
           p_score best \<le> 3602879701896397 / 2251799813685248 \<and>
           exactScore (p_score best) \<le> 8 / 5) \<and>
   wf_board fullBoard \<and>
   findBestPlacement exampleShapes TO fullBoard = Some (Inr None)"
proof -
  have wf: "wf_board createEmptyBoard" by code_simp
  have ok: "shapeOk (exampleShapes TO)" by (rule shapeOk_exampleShapes)
  have to: "trialOutcome exampleShapes TO createEmptyBoard 0 0 =
     Some (Inr (Some (\<lparr>holes = 0, height = 2, bumpiness = 2\<rparr>, 0)))" by code_simp
  have ws: "weightedSum \<lparr>holes = 0, height = 2, bumpiness = 2\<rparr> 0 =
     3602879701896397 / 2251799813685248" by code_simp
  have tr: "tryPlacement exampleShapes TO createEmptyBoard 0 0 =
     Some (Inr (Some (3602879701896397 / 2251799813685248, 0)))"
    by (simp add: tryPlacement_outcome to ws returnR_def)
  have ex: "exactScore (3602879701896397 / 2251799813685248) = 8 / 5" by code_simp
  have rg: "inSearchRange 0 0" by (simp add: inSearchRange_def)
  from findBestPlacement_spec [of createEmptyBoard exampleShapes TO, OF wf ok] obtain res where
    res: "findBestPlacement exampleShapes TO createEmptyBoard = Some (Inr res)"
      "res = None \<longleftrightarrow>
         (\<forall>rot x. inSearchRange rot x \<longrightarrow>
            tryPlacement exampleShapes TO createEmptyBoard rot x = Some (Inr None))"
      "\<forall>best. res = Some best \<longrightarrow>
         (\<forall>rot x sc l. inSearchRange rot x \<and>
            tryPlacement exampleShapes TO createEmptyBoard rot x = Some (Inr (Some (sc, l))) \<longrightarrow>
            p_score best \<le> sc \<and> exactScore (p_score best) \<le> exactScore sc)"
    by blast
  have "res \<noteq> None" using res(2) rg tr by auto
  then obtain best where best: "res = Some best" by auto
  have "p_score best \<le> 3602879701896397 / 2251799813685248 \<and>
        exactScore (p_score best) \<le> exactScore (3602879701896397 / 2251799813685248)"
    using res(3) best rg tr by blast
  then have a: "\<exists>best. findBestPlacement exampleShapes TO createEmptyBoard = Some (Inr (Some best)) \<and>
           p_score best \<le> 3602879701896397 / 2251799813685248 \<and>
           exactScore (p_score best) \<le> 8 / 5"
    using res(1) best ex by auto
  show ?thesis
    by (intro conjI wf ok tr ex a wf_fullBoard fullBoard_findBestPlacement [of exampleShapes TO, OF ok])
qed

text \<open>
  C4 as stated fails for the \<open>findBestPlacement\<close> of the other revision,
  \<^verbatim>\<open>src/lib/utils.ts\<close> lines 390 to 423, which compares hole counts and breaks a tie by
  \<^verbatim>\<open>Math.random() < 0.5\<close>. For the L piece on the empty board, with random numbers 0.5, it
  returns the first valid trial, rotation 0 at \<open>x = 0\<close>, whose composite score is 1.9; the
  trial with rotation 0 at \<open>x = 7\<close> is valid, has no hole either, and its composite score is
  1.6.
\<close>

theorem findBestPlacement_holes_not_minimal:
  "map_option (map_sum id fst)
     (findBestPlacement_holes exampleShapes (\<lambda>k. 1 / 2) 0 TL createEmptyBoard) =
     Some (Inr (Some \<lparr>hp_holes = 0, hp_x = 0, hp_rotation = 0\<rparr>)) \<and>
   trialMetrics exampleShapes TL createEmptyBoard 0 0 =
     Some (Inr (Some \<lparr>holes = 0, height = 2, bumpiness = 3\<rparr>)) \<and>
   trialMetrics exampleShapes TL createEmptyBoard 7 0 =
     Some (Inr (Some \<lparr>holes = 0, height = 2, bumpiness = 2\<rparr>)) \<and>
   trialOutcome exampleShapes TL createEmptyBoard 0 0 =
     Some (Inr (Some (\<lparr>holes = 0, height = 2, bumpiness = 3\<rparr>, 0))) \<and>
   trialOutcome exampleShapes TL createEmptyBoard 0 7 =
     Some (Inr (Some (\<lparr>holes = 0, height = 2, bumpiness = 2\<rparr>, 0))) \<and>
   inSearchRange 0 7 \<and>
   compositeScore \<lparr>holes = 0, height = 2, bumpiness = 3\<rparr> 0 = 19 / 10 \<and>
   compositeScore \<lparr>holes = 0, height = 2, bumpiness = 2\<rparr> 0 = 8 / 5"
proof -
  have first: "map_option (map_sum id fst)
     (findBestPlacement_holes exampleShapes (\<lambda>k. 1 / 2) 0 TL createEmptyBoard) =
     Some (Inr (Some \<lparr>hp_holes = 0, hp_x = 0, hp_rotation = 0\<rparr>))"
  proof -
    have wf: "wf_board createEmptyBoard" by code_simp
    have ok: "shapeOk (exampleShapes TL)" by (rule shapeOk_exampleShapes)
    have t3: "trialMetrics exampleShapes TL createEmptyBoard (- 3) 0 = Some (Inr None)" by code_simp
    have t2: "trialMetrics exampleShapes TL createEmptyBoard (- 2) 0 = Some (Inr None)" by code_simp
    have t1: "trialMetrics exampleShapes TL createEmptyBoard (- 1) 0 = Some (Inr None)" by code_simp
    have t0: "trialMetrics exampleShapes TL createEmptyBoard 0 0 =
              Some (Inr (Some \<lparr>holes = 0, height = 2, bumpiness = 3\<rparr>))" by code_simp
    note n3 = trialMetrics_None [OF t3] and n2 = trialMetrics_None [OF t2]
      and n1 = trialMetrics_None [OF t1]
    from trialMetrics_Some [OF t0] obtain rb where
      rb: "simulatePlacement exampleShapes TL createEmptyBoard 0 0 = Some (Inr (Some rb))"
          "calculateBoardMetrics rb = Inr \<lparr>holes = 0, height = 2, bumpiness = 3\<rparr>"
      by blast
    have xs: "[- 3..int BOARD_WIDTH + 2] = - 3 # - 2 # - 1 # 0 # [1..12]" by code_simp
    have rs: "[0..<4] = 0 # [1..<4]" by (simp add: upt_rec)
    let ?b = "\<lparr>hp_holes = 0, hp_x = 0, hp_rotation = 0\<rparr>"
    let ?F = "\<lambda>(rot :: nat) (x :: int) (bestPlacement, n' :: nat).
                bindR (simulatePlacement exampleShapes TL createEmptyBoard x rot) (\<lambda>resultBoard.
                  case resultBoard of
                    None \<Rightarrow> returnR (bestPlacement, n')
                  | Some rb \<Rightarrow>
                      bindR (liftE (calculateBoardMetrics rb)) (\<lambda>metrics.
                        case bestPlacement of
                          None \<Rightarrow>
                            returnR (Some \<lparr>hp_holes = holes metrics, hp_x = x, hp_rotation = rot\<rparr>, n')
                        | Some best \<Rightarrow>
                            if holes metrics < hp_holes best
                            then returnR (Some \<lparr>hp_holes = holes metrics, hp_x = x, hp_rotation = rot\<rparr>, n')
                            else if holes metrics = hp_holes best
                            then (if (1 :: real) / 2 < 1 / 2
                                  then returnR (Some \<lparr>hp_holes = holes metrics, hp_x = x,
                                                       hp_rotation = rot\<rparr>, n' + 1)
                                  else returnR (bestPlacement, n' + 1))
                            else returnR (bestPlacement, n')))"
    have keep: "\<exists>n'. ?F rot x (Some ?b, n) = Some (Inr (Some ?b, n'))"
      for rot :: nat and x :: int and n :: nat
      using holes_trial_keep [where rnd = "\<lambda>k. 1 / 2" and b = ?b and n = n and x = x and rot = rot
          and board = createEmptyBoard and shapes = exampleShapes and t = TL, OF wf ok]
      by simp
    have inner: "\<exists>n'. foldR (?F rot) vs (Some ?b, n) = Some (Inr (Some ?b, n'))"
      for rot :: nat and vs :: "int list" and n :: nat
      by (rule foldR_keep) (rule keep)
    have outer: "\<exists>n'. foldR (\<lambda>rot. foldR (?F rot) [- 3..int BOARD_WIDTH + 2]) rots (Some ?b, n)
                   = Some (Inr (Some ?b, n'))"
      for rots :: "nat list" and n :: nat
      by (rule foldR_keep) (rule inner)
    from inner [of 0 "[1..12]" 0] obtain k1 where
      k1: "foldR (?F 0) [1..12] (Some ?b, 0) = Some (Inr (Some ?b, k1))" by blast
    have first: "foldR (?F 0) [- 3..int BOARD_WIDTH + 2] (None, 0) = Some (Inr (Some ?b, k1))"
      unfolding xs using k1 by (simp add: n3 n2 n1 rb returnR_def liftE_def)
    from outer [of "[1..<4]" k1] obtain k2 where
      k2: "foldR (\<lambda>rot. foldR (?F rot) [- 3..int BOARD_WIDTH + 2]) [1..<4] (Some ?b, k1)
             = Some (Inr (Some ?b, k2))" by blast
    have "findBestPlacement_holes exampleShapes (\<lambda>k. 1 / 2) 0 TL createEmptyBoard =
          Some (Inr (Some ?b, k2))"
      unfolding findBestPlacement_holes_def rs using first k2 by simp
    then show ?thesis by simp
  qed
  have t0: "trialMetrics exampleShapes TL createEmptyBoard 0 0 =
     Some (Inr (Some \<lparr>holes = 0, height = 2, bumpiness = 3\<rparr>))" by code_simp
  have t7: "trialMetrics exampleShapes TL createEmptyBoard 7 0 =
     Some (Inr (Some \<lparr>holes = 0, height = 2, bumpiness = 2\<rparr>))" by code_simp
  have o0: "trialOutcome exampleShapes TL createEmptyBoard 0 0 =
     Some (Inr (Some (\<lparr>holes = 0, height = 2, bumpiness = 3\<rparr>, 0)))" by code_simp
  have o7: "trialOutcome exampleShapes TL createEmptyBoard 0 7 =
     Some (Inr (Some (\<lparr>holes = 0, height = 2, bumpiness = 2\<rparr>, 0)))" by code_simp
  have rg: "inSearchRange 0 7" by (simp add: inSearchRange_def BOARD_WIDTH_def)
  have c0: "compositeScore \<lparr>holes = 0, height = 2, bumpiness = 3\<rparr> 0 = 19 / 10"
    by (simp add: compositeScore_def)
  have c7: "compositeScore \<lparr>holes = 0, height = 2, bumpiness = 2\<rparr> 0 = 8 / 5"
    by (simp add: compositeScore_def)
  show ?thesis by (intro conjI first t0 t7 o0 o7 rg c0 c7)
qed

section \<open>Properties of the selector\<close>

text \<open>
  C10: on a board of \<open>BOARD_HEIGHT\<close> rows of \<open>BOARD_WIDTH\<close> cells, with a shape table of
  N x N matrices that each have an occupied cell and random numbers \<open>0 \<le> r < 1\<close>,
  \<open>selectOptimalPiece\<close> returns one of the seven kinds, in both revisions. When
  \<open>findBestPlacement\<close> is \<^verbatim>\<open>null\<close> for all seven kinds the search loop returns its initial
  \<open>bestPiece\<close>: \<^verbatim>\<open>"T"\<close> in the revision with the random gates (whenever no gate returns a
  random kind first), \<^verbatim>\<open>"I"\<close> in the other one.
\<close>

theorem selectOptimalPiece_total:
  assumes "wf_board board" "\<forall>t. shapeOk (shapes t)" "\<forall>k. 0 \<le> rnd k \<and> rnd k < 1"
  shows "(\<exists>t n'. selectOptimalPiece shapes rnd n board = Some (Inr (Some t, n')) \<and>
                  t \<in> set pieceTypes) \<and>
         (\<exists>t. searchBestPiece shapes board = Some (Inr t)) \<and>
         ((\<forall>t. findBestPlacement shapes t board = Some (Inr None)) \<longrightarrow>
            searchBestPiece shapes board = Some (Inr TT) \<and>
            (\<forall>near. isBoardMostlyEmpty board = Inr False \<and> hasNearCompleteLine board = Inr near \<and>
               \<not> (\<not> near \<and> rnd n < 6 / 10) \<and> \<not> rnd (if \<not> near then n + 1 else n) < 2 / 10 \<longrightarrow>
               selectOptimalPiece shapes rnd n board =
                 Some (Inr (Some TT, (if \<not> near then n + 1 else n) + 1)))) \<and>
         (\<exists>t n'. selectOptimalPiece_holes shapes rnd n board = Some (Inr (t, n')) \<and>
                  t \<in> set pieceTypes) \<and>
         ((\<forall>t m. \<exists>m'. findBestPlacement_holes shapes rnd m t board = Some (Inr (None, m'))) \<longrightarrow>
            (\<exists>n'. selectOptimalPiece_holes shapes rnd n board = Some (Inr (TI, n'))))"
proof (intro conjI impI allI)
  show "\<exists>t n'. selectOptimalPiece shapes rnd n board = Some (Inr (Some t, n')) \<and>
                  t \<in> set pieceTypes"
    using selectOptimalPiece_returns [OF assms, of n] by (simp add: set_pieceTypes)
  show "\<exists>t. searchBestPiece shapes board = Some (Inr t)"
    by (rule searchBestPiece_total [OF assms(1,2)])
  show "\<exists>t n'. selectOptimalPiece_holes shapes rnd n board = Some (Inr (t, n')) \<and>
                  t \<in> set pieceTypes"
    using selectOptimalPiece_holes_total [OF assms(1,2), of rnd n] by (simp add: set_pieceTypes)
next
  assume "\<forall>t m. \<exists>m'. findBestPlacement_holes shapes rnd m t board = Some (Inr (None, m'))"
  then show "\<exists>n'. selectOptimalPiece_holes shapes rnd n board = Some (Inr (TI, n'))"
    by (rule selectOptimalPiece_holes_default)
next
  assume nul: "\<forall>t. findBestPlacement shapes t board = Some (Inr None)"
  show d: "searchBestPiece shapes board = Some (Inr TT)"
    by (rule searchBestPiece_default [OF nul])
  fix near
  assume g: "isBoardMostlyEmpty board = Inr False \<and> hasNearCompleteLine board = Inr near \<and>
               \<not> (\<not> near \<and> rnd n < 6 / 10) \<and> \<not> rnd (if \<not> near then n + 1 else n) < 2 / 10"
  then have m: "isBoardMostlyEmpty board = Inr False" and h: "hasNearCompleteLine board = Inr near"
    by simp_all
  show "selectOptimalPiece shapes rnd n board =
                 Some (Inr (Some TT, (if \<not> near then n + 1 else n) + 1))"
    unfolding selectOptimalPiece_cases [OF m h] using g by (auto simp: d returnR_def)
qed

theorem selectOptimalPiece_total_witness:
  "wf_board fullBoard \<and> shapeOk (exampleShapes TS) \<and> (0 :: real) \<le> 1 / 2 \<and> (1 :: real) / 2 < 1 \<and>
   findBestPlacement exampleShapes TS fullBoard = Some (Inr None) \<and>
   selectOptimalPiece exampleShapes (\<lambda>k. 1 / 2) 0 fullBoard = Some (Inr (Some TT, 1)) \<and>
   (\<exists>n'. selectOptimalPiece_holes exampleShapes (\<lambda>k. 1 / 2) 0 fullBoard = Some (Inr (TI, n')))"
proof -
  have ok: "\<forall>t. shapeOk (exampleShapes t)" by (simp add: shapeOk_exampleShapes)
  have r: "\<forall>k :: nat. (0 :: real) \<le> 1 / 2 \<and> (1 :: real) / 2 < 1" by simp
  note inst = selectOptimalPiece_total [of fullBoard exampleShapes "\<lambda>k. 1 / 2" 0, OF wf_fullBoard ok r]
  have nul: "\<forall>t. findBestPlacement exampleShapes t fullBoard = Some (Inr None)"
    by (simp add: fullBoard_findBestPlacement [of exampleShapes, OF shapeOk_exampleShapes])
  have nulh: "\<forall>t m. \<exists>m'. findBestPlacement_holes exampleShapes (\<lambda>k. 1 / 2) m t fullBoard
                 = Some (Inr (None, m'))"
  proof (intro allI)
    fix t m
    have "findBestPlacement_holes exampleShapes (\<lambda>k. 1 / 2) m t fullBoard = Some (Inr (None, m))"
      by (rule findBestPlacement_holes_none)
         (rule fullBoard_trials(2) [of exampleShapes t, OF shapeOk_exampleShapes])
    then show "\<exists>m'. findBestPlacement_holes exampleShapes (\<lambda>k. 1 / 2) m t fullBoard
                 = Some (Inr (None, m'))"
      by blast
  qed
  have m: "isBoardMostlyEmpty fullBoard = Inr False" by code_simp
  have h: "hasNearCompleteLine fullBoard = Inr True" by code_simp
  have a: "selectOptimalPiece exampleShapes (\<lambda>k. 1 / 2) 0 fullBoard = Some (Inr (Some TT, 1))"
    using inst nul m h by auto
  have b: "\<exists>n'. selectOptimalPiece_holes exampleShapes (\<lambda>k. 1 / 2) 0 fullBoard = Some (Inr (TI, n'))"
    using inst nulh by blast
  show ?thesis
    by (intro conjI wf_fullBoard shapeOk_exampleShapes nul [rule_format] a b) simp_all
qed

end
